theory Spec2Isabelle
  imports Main "HOL-Library.Word" "HOL-Library.Signed_Division"
begin

section \<open>Data model of sweeper.cpp\<close>

text \<open>
  The program's \<open>int\<close> values (coordinates, dimensions, counters) are modelled as
  unbounded integers; the one place where a narrow machine integer decides behaviour is the
  bit-field \<open>int neighbor_mines : 4\<close> of \<open>Cell\<close>, a signed 4-bit value, modelled as a
  \<open>4 word\<close> read with \<open>sint\<close>. The 64-bit turn counter \<open>time\<close> is a natural number.

  Undefined behaviour of the source is an error value of the model: an access
  \<open>board.cells[i]\<close> outside the vector is \<open>OutOfBounds\<close>, a division by a zero width is
  \<open>DivisionByZero\<close>, a \<open>resize\<close> to a negative size is \<open>LengthError\<close>. \<open>OutOfFuel\<close> is
  not an error of the source: it is the model's answer when a recursion or loop has not
  finished within the depth (or the random draws) it was given.
\<close>

datatype error = OutOfBounds | DivisionByZero | LengthError | OutOfFuel

record cell =
  is_mine :: bool
  is_revealed :: bool
  is_flagged :: bool
  neighbor_mines :: "4 word"

datatype CoordinateSystem = Cartesian | Boris

record board =
  width :: int
  height :: int
  num_mines :: int
  cells :: "cell list"
  seed :: nat
  game_over :: bool
  time :: nat
  system :: CoordinateSystem

datatype CommandVerb = Reveal | Flag | New | Quit

datatype Command = Command CommandVerb int int

text \<open>A value-initialised \<open>Cell\<close>, as \<open>std::vector::resize\<close> creates it.\<close>

definition blank_cell :: cell where
  "blank_cell = \<lparr>is_mine = False, is_revealed = False, is_flagged = False, neighbor_mines = 0\<rparr>"

text \<open>Sequencing of fallible steps: the first error ends the computation.\<close>

definition and_then :: "error + 'a \<Rightarrow> ('a \<Rightarrow> error + 'b) \<Rightarrow> error + 'b" where
  "and_then r k = (case r of Inl e \<Rightarrow> Inl e | Inr v \<Rightarrow> k v)"

text \<open>\<open>board.cells[i]\<close>: the checked read, and the write through the reference it gave.\<close>

definition cell_at :: "'a board_scheme \<Rightarrow> int \<Rightarrow> error + cell" where
  "cell_at board i =
     (if 0 \<le> i \<and> i < int (length (cells board)) then Inr (cells board ! nat i)
      else Inl OutOfBounds)"

definition cell_ref :: "'a board_scheme \<Rightarrow> int \<Rightarrow> cell" where
  "cell_ref board i = cells board ! nat i"

definition set_cell :: "'a board_scheme \<Rightarrow> int \<Rightarrow> cell \<Rightarrow> 'a board_scheme" where
  "set_cell board i c = board\<lparr>cells := (cells board)[nat i := c]\<rparr>"

section \<open>for_each_neighbour\<close>

text \<open>
  The template calls \<open>f\<close> on up to eight neighbours, in the order of the source, each call
  on the board the previous one left. The state is a record scheme: what a closure captures
  by reference lives in the extension of the board record.
\<close>

definition for_each_neighbour ::
  "'a board_scheme \<Rightarrow> int \<Rightarrow> int \<Rightarrow>
   ('a board_scheme \<Rightarrow> int \<Rightarrow> int \<Rightarrow> error + 'a board_scheme) \<Rightarrow> error + 'a board_scheme" where
  "for_each_neighbour board x y f =
     and_then
       (if x > 0 then
          and_then (f board (x - 1) y) (\<lambda>board.
          and_then (if y > 0 then f board (x - 1) (y - 1) else Inr board) (\<lambda>board.
          if y < height board - 1 then f board (x - 1) (y + 1) else Inr board))
        else Inr board) (\<lambda>board.
     and_then
       (if x < width board - 1 then
          and_then (f board (x + 1) y) (\<lambda>board.
          and_then (if y > 0 then f board (x + 1) (y - 1) else Inr board) (\<lambda>board.
          if y < height board - 1 then f board (x + 1) (y + 1) else Inr board))
        else Inr board) (\<lambda>board.
     and_then (if y > 0 then f board x (y - 1) else Inr board) (\<lambda>board.
     if y < height board - 1 then f board x (y + 1) else Inr board)))"

section \<open>init_board\<close>

text \<open>The lambda of \<open>init_board\<close>: a neighbour that is not a mine counts one mine more.\<close>

definition init_board_visit :: "'a board_scheme \<Rightarrow> int \<Rightarrow> int \<Rightarrow> error + 'a board_scheme" where
  "init_board_visit board x y =
     and_then (cell_at board (y * width board + x)) (\<lambda>cell.
       if \<not> is_mine cell then
         Inr (set_cell board (y * width board + x)
                (cell\<lparr>neighbor_mines := neighbor_mines cell + 1\<rparr>))
       else Inr board)"

text \<open>
  The \<open>while\<close> loop of \<open>init_board\<close>. The list holds the values that successive calls
  \<open>dist(reng)\<close> return (the random engine is library code, so its output is an input of the
  model); \<open>n\<close> is the local counter \<open>num_mines\<close>. The loop may run forever: when it is not
  finished after the last draw given, the model answers \<open>OutOfFuel\<close>.
\<close>

fun place_mines :: "int list \<Rightarrow> board \<Rightarrow> int \<Rightarrow> int \<Rightarrow> error + board" where
  "place_mines [] board n blocked =
     (if n < num_mines board then Inl OutOfFuel else Inr board)"
| "place_mines (pos # draws) board n blocked =
     (if n < num_mines board then
        if pos = blocked then place_mines draws board n blocked
        else
          case cell_at board pos of
            Inl e \<Rightarrow> Inl e
          | Inr cell \<Rightarrow>
              if is_mine cell then place_mines draws board n blocked
              else
                let board = set_cell board pos (cell\<lparr>is_mine := True, neighbor_mines := 0\<rparr>) in
                if width board = 0 then Inl DivisionByZero
                else
                  case for_each_neighbour board (pos smod width board) (pos sdiv width board)
                         init_board_visit of
                    Inl e \<Rightarrow> Inl e
                  | Inr board \<Rightarrow> place_mines draws board (n + 1) blocked
      else Inr board)"

definition init_board :: "int list \<Rightarrow> board \<Rightarrow> int \<Rightarrow> int \<Rightarrow> error + board" where
  "init_board draws board x y = place_mines draws board 0 (y * width board + x)"

section \<open>reveal\<close>

text \<open>
  The recursive flood fill. The first argument bounds the depth of the recursion; that a
  depth above the number of cells is always enough is proved below.
\<close>

fun reveal :: "nat \<Rightarrow> 'a board_scheme \<Rightarrow> int \<Rightarrow> int \<Rightarrow> error + 'a board_scheme" where
  "reveal 0 board x y = Inl OutOfFuel"
| "reveal (Suc n) board x y =
     (case cell_at board (y * width board + x) of
        Inl e \<Rightarrow> Inl e
      | Inr cell \<Rightarrow>
          if is_revealed cell then Inr board
          else
            let cell = cell\<lparr>is_flagged := False, is_revealed := True\<rparr>;
                board = set_cell board (y * width board + x) cell
            in if is_mine cell then Inr board
               else if sint (neighbor_mines cell) > 0 then Inr board
               else for_each_neighbour board x y (\<lambda>board x y. reveal n board x y))"

section \<open>reveal with a log of its writes\<close>

text \<open>
  A copy of \<open>reveal\<close> on boards that carry a ghost variable: the list of the positions at
  which \<open>cell.state.is_revealed = true\<close> was executed, in the order of execution. It serves
  to state that no cell is revealed twice.
\<close>

record logged_board = board +
  writes :: "(int \<times> int) list"

fun reveal_logged :: "nat \<Rightarrow> logged_board \<Rightarrow> int \<Rightarrow> int \<Rightarrow> error + logged_board" where
  "reveal_logged 0 board x y = Inl OutOfFuel"
| "reveal_logged (Suc n) board x y =
     (case cell_at board (y * width board + x) of
        Inl e \<Rightarrow> Inl e
      | Inr cell \<Rightarrow>
          if is_revealed cell then Inr board
          else
            let cell = cell\<lparr>is_flagged := False, is_revealed := True\<rparr>;
                board = (set_cell board (y * width board + x) cell)
                          \<lparr>writes := writes board @ [(x, y)]\<rparr>
            in if is_mine cell then Inr board
               else if sint (neighbor_mines cell) > 0 then Inr board
               else for_each_neighbour board x y (\<lambda>board x y. reveal_logged n board x y))"

section \<open>check_board\<close>

text \<open>The counting loop, with its two counters.\<close>

fun check_cells :: "cell list \<Rightarrow> int \<Rightarrow> int \<Rightarrow> int \<times> int" where
  "check_cells [] correctly_flagged_mines unrevealed_cells =
     (correctly_flagged_mines, unrevealed_cells)"
| "check_cells (cell # rest) correctly_flagged_mines unrevealed_cells =
     (if is_flagged cell then
        if is_mine cell then check_cells rest (correctly_flagged_mines + 1) unrevealed_cells
        else check_cells rest correctly_flagged_mines unrevealed_cells
      else if \<not> is_revealed cell then
        check_cells rest correctly_flagged_mines (unrevealed_cells + 1)
      else check_cells rest correctly_flagged_mines unrevealed_cells)"

text \<open>The result is what the function prints and the board it leaves.\<close>

definition check_board :: "board \<Rightarrow> string list \<times> board" where
  "check_board board =
     (case check_cells (cells board) 0 0 of
        (correctly_flagged_mines, unrevealed_cells) \<Rightarrow>
          if correctly_flagged_mines + unrevealed_cells = num_mines board then
            ([''You win!''],
             board\<lparr>cells := map (\<lambda>cell. if is_mine cell then cell\<lparr>is_flagged := True\<rparr> else cell)
                              (cells board),
                   game_over := True\<rparr>)
          else ([], board))"

section \<open>The commands of the main loop\<close>

text \<open>The board \<open>main\<close> builds from its configuration, and the \<open>New\<close> command.\<close>

definition resize_cells :: "board \<Rightarrow> error + board" where
  "resize_cells board =
     (if width board * height board < 0 then Inl LengthError
      else Inr (board\<lparr>cells := replicate (nat (width board * height board)) blank_cell\<rparr>))"

definition start_board :: "int \<Rightarrow> int \<Rightarrow> int \<Rightarrow> nat \<Rightarrow> CoordinateSystem \<Rightarrow> error + board" where
  "start_board w h m s sys =
     resize_cells \<lparr>width = w, height = h, num_mines = m, cells = [], seed = s,
                   game_over = False, time = 0, system = sys\<rparr>"

definition new_command :: "nat \<Rightarrow> board \<Rightarrow> int \<Rightarrow> int \<Rightarrow> error + board" where
  "new_command fresh_seed board x y =
     and_then
       (resize_cells (if x > 0 \<and> y > 0 then board\<lparr>width := x, height := y\<rparr> else board))
       (\<lambda>board. Inr (board\<lparr>seed := fresh_seed, game_over := False, time := 0\<rparr>))"

text \<open>The first lambda of the \<open>Reveal\<close> case counts flags in the captured \<open>flags\<close>.\<close>

record flag_count = board +
  flags :: int

definition count_flag :: "flag_count \<Rightarrow> int \<Rightarrow> int \<Rightarrow> error + flag_count" where
  "count_flag board x y =
     and_then (cell_at board (y * width board + x)) (\<lambda>cell.
       if is_flagged cell then Inr (board\<lparr>flags := flags board + 1\<rparr>) else Inr board)"

text \<open>The second lambda reveals a neighbour that is not a mine.\<close>

definition chord_visit :: "nat \<Rightarrow> board \<Rightarrow> int \<Rightarrow> int \<Rightarrow> error + board" where
  "chord_visit n board x y =
     and_then (cell_at board (y * width board + x)) (\<lambda>cell.
       if \<not> is_mine cell then reveal n board x y else Inr board)"

text \<open>
  The \<open>Reveal\<close> case, in two parts: the mine placement of the first turn, and what follows
  it (\<open>reveal_or_chord\<close>). \<open>cell\<close> is a reference in the source, so each use reads the
  cell as it is then (\<open>cell_ref\<close>).
\<close>

definition reveal_or_chord ::
  "nat \<Rightarrow> board \<Rightarrow> int \<Rightarrow> int \<Rightarrow> error + string list \<times> board" where
  "reveal_or_chord n board x y =
     and_then (cell_at board (y * width board + x)) (\<lambda>cell.
       if is_revealed cell \<and> sint (neighbor_mines cell) > 0 then
         and_then (for_each_neighbour (board.extend board \<lparr>flags = 0\<rparr>) x y count_flag) (\<lambda>counted.
           let board = board.truncate counted in
           if flags counted \<noteq> sint (neighbor_mines (cell_ref board (y * width board + x))) then
             Inr ([''Incorrect number of flags''], board)
           else
             and_then (for_each_neighbour board x y (chord_visit n)) (\<lambda>board. Inr ([], board)))
       else if \<not> is_revealed cell then
         and_then (reveal n board x y) (\<lambda>board.
           if is_mine (cell_ref board (y * width board + x)) then
             Inr ([], board\<lparr>game_over := True\<rparr>)
           else Inr ([], board))
       else Inr ([], board))"

definition reveal_command ::
  "nat \<Rightarrow> int list \<Rightarrow> board \<Rightarrow> int \<Rightarrow> int \<Rightarrow> error + string list \<times> board" where
  "reveal_command n draws board x y =
     and_then (if time board = 1 then init_board draws board x y else Inr board) (\<lambda>board.
       reveal_or_chord n board x y)"

definition flag_command :: "board \<Rightarrow> int \<Rightarrow> int \<Rightarrow> error + board" where
  "flag_command board x y =
     and_then (cell_at board (y * width board + x)) (\<lambda>cell.
       if is_revealed cell then Inr board
       else Inr (set_cell board (y * width board + x) (cell\<lparr>is_flagged := \<not> is_flagged cell\<rparr>)))"

section \<open>The main loop\<close>

text \<open>
  One iteration of \<open>while (true)\<close>: what it prints (the board rendering left out), and the
  board with which the loop goes on or ends. Its inputs are the command that
  \<open>read_command\<close> returns, the draws of the random engine should \<open>init_board\<close> run, and the
  seed \<open>std::random_device\<close> gives should the command be \<open>New\<close>.
\<close>

datatype outcome = Continue board | Exit board

definition main_iteration ::
  "nat \<Rightarrow> board \<Rightarrow> Command \<times> int list \<times> nat \<Rightarrow> error + string list \<times> outcome" where
  "main_iteration n board input =
     (case input of (Command verb x y, draws, fresh_seed) \<Rightarrow>
        let board = board\<lparr>time := time board + 1\<rparr>;
            (out, board) = check_board board
        in if game_over board then Inr (out @ [''Game over!''], Exit board)
           else
             case verb of
               New \<Rightarrow> and_then (new_command fresh_seed board x y) (\<lambda>board. Inr (out, Continue board))
             | Reveal \<Rightarrow>
                 and_then (reveal_command n draws board x y) (\<lambda>(out', board).
                   Inr (out @ out', Continue board))
             | Flag \<Rightarrow> and_then (flag_command board x y) (\<lambda>board. Inr (out, Continue board))
             | Quit \<Rightarrow> Inr (out, Exit board))"

text \<open>The loop over a list of inputs; it ends with the inputs or with the game.\<close>

fun main_loop :: "nat \<Rightarrow> board \<Rightarrow> (Command \<times> int list \<times> nat) list \<Rightarrow> error + outcome" where
  "main_loop n board [] = Inr (Continue board)"
| "main_loop n board (input # inputs) =
     (case main_iteration n board input of
        Inl e \<Rightarrow> Inl e
      | Inr (out, Continue board) \<Rightarrow> main_loop n board inputs
      | Inr (out, Exit board) \<Rightarrow> Inr (Exit board))"

section \<open>Notions the properties are stated with\<close>

text \<open>
  None of the following is code of the program: these are the coordinates, sets and
  predicates in which the specification's properties are phrased.
\<close>

text \<open>The cell at column \<open>x\<close>, row \<open>y\<close>, and the coordinates of the grid.\<close>

definition cell_xy :: "'a board_scheme \<Rightarrow> int \<Rightarrow> int \<Rightarrow> cell" where
  "cell_xy board x y = cell_ref board (y * width board + x)"

definition in_bounds :: "'a board_scheme \<Rightarrow> int \<Rightarrow> int \<Rightarrow> bool" where
  "in_bounds board x y = (0 \<le> x \<and> x < width board \<and> 0 \<le> y \<and> y < height board)"

text \<open>A board as \<open>main\<close> keeps it: positive dimensions and \<open>width * height\<close> cells.\<close>

definition board_ok :: "'a board_scheme \<Rightarrow> bool" where
  "board_ok board =
     (0 < width board \<and> 0 < height board
      \<and> int (length (cells board)) = width board * height board)"

text \<open>
  The grid-adjacent positions of \<open>(x, y)\<close> on a \<open>w\<close> by \<open>h\<close> grid, in the order in which
  \<open>for_each_neighbour\<close> visits them, and the visit of a list of positions.
\<close>

definition neighbours :: "int \<Rightarrow> int \<Rightarrow> int \<Rightarrow> int \<Rightarrow> (int \<times> int) list" where
  "neighbours w h x y =
     (if x > 0 then
        (x - 1, y) # (if y > 0 then [(x - 1, y - 1)] else [])
          @ (if y < h - 1 then [(x - 1, y + 1)] else [])
      else [])
     @ (if x < w - 1 then
          (x + 1, y) # (if y > 0 then [(x + 1, y - 1)] else [])
            @ (if y < h - 1 then [(x + 1, y + 1)] else [])
        else [])
     @ (if y > 0 then [(x, y - 1)] else [])
     @ (if y < h - 1 then [(x, y + 1)] else [])"

fun visit_all ::
  "('s \<Rightarrow> int \<Rightarrow> int \<Rightarrow> error + 's) \<Rightarrow> (int \<times> int) list \<Rightarrow> 's \<Rightarrow> error + 's" where
  "visit_all f [] s = Inr s"
| "visit_all f (p # ps) s = and_then (f s (fst p) (snd p)) (visit_all f ps)"

text \<open>The number of mines among the neighbours of a position.\<close>

definition adjacent_mines :: "'a board_scheme \<Rightarrow> int \<Rightarrow> int \<Rightarrow> int" where
  "adjacent_mines board x y =
     int (length (filter (\<lambda>p. is_mine (cell_xy board (fst p) (snd p)))
                    (neighbours (width board) (height board) x y)))"

text \<open>The two counts of the win condition, in the specification's words.\<close>

definition correctly_flagged :: "board \<Rightarrow> int" where
  "correctly_flagged board =
     int (length (filter (\<lambda>c. is_flagged c \<and> is_mine c) (cells board)))"

definition unrevealed_unflagged :: "board \<Rightarrow> int" where
  "unrevealed_unflagged board =
     int (length (filter (\<lambda>c. \<not> is_flagged c \<and> \<not> is_revealed c) (cells board)))"

text \<open>The number of flagged cells among the neighbours, and the number of mines on the board.\<close>

definition flagged_neighbours :: "'a board_scheme \<Rightarrow> int \<Rightarrow> int \<Rightarrow> int" where
  "flagged_neighbours board x y =
     int (length (filter (\<lambda>p. is_flagged (cell_xy board (fst p) (snd p)))
                    (neighbours (width board) (height board) x y)))"

definition mine_count :: "'a board_scheme \<Rightarrow> int" where
  "mine_count board = int (length (filter is_mine (cells board)))"

fun board_of :: "outcome \<Rightarrow> board" where
  "board_of (Continue board) = board"
| "board_of (Exit board) = board"

section \<open>Example boards\<close>

text \<open>Boards as \<open>main\<close> builds them, before the first iteration of its loop.\<close>

definition fresh_board :: "int \<Rightarrow> int \<Rightarrow> int \<Rightarrow> board" where
  "fresh_board w h m =
     \<lparr>width = w, height = h, num_mines = m, cells = replicate (nat (w * h)) blank_cell,
      seed = 0, game_over = False, time = 0, system = Boris\<rparr>"

text \<open>
  Four cells in a row, the mine at index 2; the cell left of it is revealed and shows 1,
  and the player has flagged the safe cell at index 0.
\<close>

definition row_with_wrong_flag :: board where
  "row_with_wrong_flag =
     \<lparr>width = 4, height = 1, num_mines = 1,
      cells =
        [\<lparr>is_mine = False, is_revealed = False, is_flagged = True, neighbor_mines = 0\<rparr>,
         \<lparr>is_mine = False, is_revealed = True, is_flagged = False, neighbor_mines = 1\<rparr>,
         \<lparr>is_mine = True, is_revealed = False, is_flagged = False, neighbor_mines = 0\<rparr>,
         \<lparr>is_mine = False, is_revealed = False, is_flagged = False, neighbor_mines = 1\<rparr>],
      seed = 0, game_over = False, time = 2, system = Boris\<rparr>"

text \<open>Two cells, the mine unflagged and the safe cell revealed: a won position.\<close>

definition won_board :: board where
  "won_board =
     \<lparr>width = 2, height = 1, num_mines = 1,
      cells =
        [\<lparr>is_mine = True, is_revealed = False, is_flagged = False, neighbor_mines = 0\<rparr>,
         \<lparr>is_mine = False, is_revealed = True, is_flagged = False, neighbor_mines = 1\<rparr>],
      seed = 0, game_over = False, time = 2, system = Boris\<rparr>"

text \<open>Two distinct positions are adjacent when they differ by at most one in each coordinate.\<close>

definition adjacent :: "int \<times> int \<Rightarrow> int \<times> int \<Rightarrow> bool" where
  "adjacent p q = (p \<noteq> q \<and> \<bar>fst p - fst q\<bar> \<le> 1 \<and> \<bar>snd p - snd q\<bar> \<le> 1)"

text \<open>The number of cells not yet revealed.\<close>

definition unrevealed_count :: "'a board_scheme \<Rightarrow> nat" where
  "unrevealed_count board = length (filter (\<lambda>c. \<not> is_revealed c) (cells board))"

text \<open>
  What a flood fill may do to a cell: leave it as it is, or reveal it, clearing its flag,
  if it was not revealed. A board \<open>evolves\<close> into another when its cells change in this
  way only and nothing else of the board changes.
\<close>

definition reveal_or_keep :: "cell \<Rightarrow> cell \<Rightarrow> bool" where
  "reveal_or_keep c c' =
     (c' = c \<or> (\<not> is_revealed c \<and> c' = c\<lparr>is_flagged := False, is_revealed := True\<rparr>))"

definition evolves :: "'a board_scheme \<Rightarrow> 'a board_scheme \<Rightarrow> bool" where
  "evolves board board' =
     (board' = board\<lparr>cells := cells board'\<rparr>
      \<and> list_all2 reveal_or_keep (cells board) (cells board'))"

text \<open>All positions of the grid, row by row.\<close>

definition positions :: "'a board_scheme \<Rightarrow> (int \<times> int) list" where
  "positions board =
     concat (map (\<lambda>y. map (\<lambda>x. (x, y)) [0..width board - 1]) [0..height board - 1])"

text \<open>
  The state of the counters that \<open>init_board\<close> maintains: a mine's counter is 0, and the
  counter of any other cell is the number of mines around it, as a 4-bit value.
\<close>

definition counts_consistent :: "'a board_scheme \<Rightarrow> bool" where
  "counts_consistent board =
     (\<forall>p \<in> set (positions board).
        neighbor_mines (cell_xy board (fst p) (snd p)) =
          (if is_mine (cell_xy board (fst p) (snd p)) then 0
           else word_of_int (adjacent_mines board (fst p) (snd p))))"

text \<open>
  What \<open>reveal\<close> leaves behind: around a revealed cell that is no mine and whose counter is
  not positive, every neighbour is revealed.
\<close>

definition flood_closed :: "'a board_scheme \<Rightarrow> bool" where
  "flood_closed board =
     (\<forall>p \<in> set (positions board).
        is_revealed (cell_xy board (fst p) (snd p))
        \<and> \<not> is_mine (cell_xy board (fst p) (snd p))
        \<and> \<not> 0 < sint (neighbor_mines (cell_xy board (fst p) (snd p)))
        \<longrightarrow> (\<forall>q \<in> set (neighbours (width board) (height board) (fst p) (snd p)).
               is_revealed (cell_xy board (fst q) (snd q))))"

text \<open>Two boards that differ at most in the contents of their cells.\<close>

definition same_but_cells :: "'a board_scheme \<Rightarrow> 'a board_scheme \<Rightarrow> bool" where
  "same_but_cells board board' =
     (board' = board\<lparr>cells := cells board'\<rparr> \<and> length (cells board') = length (cells board))"

text \<open>
  The effect of one round of the loop of \<open>init_board\<close> that lays a mine at \<open>(px, py)\<close>: the
  cell becomes a mine with counter 0, and each neighbour that is no mine counts one more.
\<close>

definition mine_laid :: "'a board_scheme \<Rightarrow> int \<Rightarrow> int \<Rightarrow> 'a board_scheme \<Rightarrow> bool" where
  "mine_laid board px py board' =
     (same_but_cells board board'
      \<and> (\<forall>p \<in> set (positions board).
            cell_xy board' (fst p) (snd p) =
              (if p = (px, py) then (cell_xy board px py)\<lparr>is_mine := True, neighbor_mines := 0\<rparr>
               else if p \<in> set (neighbours (width board) (height board) px py)
                       \<and> \<not> is_mine (cell_xy board (fst p) (snd p))
               then (cell_xy board (fst p) (snd p))
                      \<lparr>neighbor_mines := neighbor_mines (cell_xy board (fst p) (snd p)) + 1\<rparr>
               else cell_xy board (fst p) (snd p))))"

text \<open>The indices of the mines.\<close>

definition mine_indices :: "'a board_scheme \<Rightarrow> nat set" where
  "mine_indices board = {j. j < length (cells board) \<and> is_mine (cells board ! j)}"

text \<open>The same row before the player has set the flag.\<close>

definition row_without_flag :: board where
  "row_without_flag =
     \<lparr>width = 4, height = 1, num_mines = 1,
      cells =
        [\<lparr>is_mine = False, is_revealed = False, is_flagged = False, neighbor_mines = 0\<rparr>,
         \<lparr>is_mine = False, is_revealed = True, is_flagged = False, neighbor_mines = 1\<rparr>,
         \<lparr>is_mine = True, is_revealed = False, is_flagged = False, neighbor_mines = 0\<rparr>,
         \<lparr>is_mine = False, is_revealed = False, is_flagged = False, neighbor_mines = 1\<rparr>],
      seed = 0, game_over = False, time = 2, system = Boris\<rparr>"

text \<open>The revealed positions of a board.\<close>

definition revealed_cells :: "'a board_scheme \<Rightarrow> (int \<times> int) set" where
  "revealed_cells board =
     {p. in_bounds board (fst p) (snd p) \<and> is_revealed (cell_xy board (fst p) (snd p))}"

text \<open>
  The connected region of cells with counter 0 around \<open>(x, y)\<close>, and its border: the cells
  with a positive counter next to a cell of the region.
\<close>

inductive_set zero_region :: "'a board_scheme \<Rightarrow> int \<Rightarrow> int \<Rightarrow> (int \<times> int) set"
  for board :: "'a board_scheme" and x :: int and y :: int where
  start: "(x, y) \<in> zero_region board x y"
| step: "p \<in> zero_region board x y \<Longrightarrow>
         q \<in> set (neighbours (width board) (height board) (fst p) (snd p)) \<Longrightarrow>
         neighbor_mines (cell_xy board (fst q) (snd q)) = 0 \<Longrightarrow>
         q \<in> zero_region board x y"

definition region_border :: "'a board_scheme \<Rightarrow> int \<Rightarrow> int \<Rightarrow> (int \<times> int) set" where
  "region_border board x y =
     {q. \<exists>p \<in> zero_region board x y.
           q \<in> set (neighbours (width board) (height board) (fst p) (snd p))
           \<and> 0 < sint (neighbor_mines (cell_xy board (fst q) (snd q)))}"

text \<open>
  The positions a call of \<open>reveal\<close> at \<open>(x, y)\<close> can come to: \<open>reveal\<close> goes on from a cell to
  its neighbours when the cell is no mine and its counter is not positive.
\<close>

definition spreads :: "'a board_scheme \<Rightarrow> int \<times> int \<Rightarrow> bool" where
  "spreads board p =
     (\<not> is_mine (cell_xy board (fst p) (snd p))
      \<and> \<not> 0 < sint (neighbor_mines (cell_xy board (fst p) (snd p))))"

inductive_set flood_reach :: "'a board_scheme \<Rightarrow> int \<Rightarrow> int \<Rightarrow> (int \<times> int) set"
  for board :: "'a board_scheme" and x :: int and y :: int where
  start: "(x, y) \<in> flood_reach board x y"
| step: "p \<in> flood_reach board x y \<Longrightarrow> spreads board p \<Longrightarrow>
         q \<in> set (neighbours (width board) (height board) (fst p) (snd p)) \<Longrightarrow>
         q \<in> flood_reach board x y"

text \<open>
  \<open>flood_closed\<close> but for the positions of \<open>P\<close>: the cells whose call of \<open>reveal\<close> is still
  running.
\<close>

definition closed_except :: "(int \<times> int) set \<Rightarrow> 'a board_scheme \<Rightarrow> bool" where
  "closed_except P board =
     (\<forall>p \<in> set (positions board).
        p \<notin> P \<and> is_revealed (cell_xy board (fst p) (snd p)) \<and> spreads board p
        \<longrightarrow> (\<forall>q \<in> set (neighbours (width board) (height board) (fst p) (snd p)).
               is_revealed (cell_xy board (fst q) (snd q))))"

text \<open>
  The positions of a game at the head of the main loop: a well-formed board with consistent
  counters, every flood fill complete, no revealed cell flagged, and all cells blank as
  long as no turn has been played.
\<close>

definition no_revealed_flag :: "'a board_scheme \<Rightarrow> bool" where
  "no_revealed_flag board =
     (\<forall>p \<in> set (positions board).
        \<not> (is_revealed (cell_xy board (fst p) (snd p))
           \<and> is_flagged (cell_xy board (fst p) (snd p))))"

definition game_state :: "board \<Rightarrow> bool" where
  "game_state board =
     (board_ok board \<and> counts_consistent board \<and> flood_closed board
      \<and> no_revealed_flag board
      \<and> (time board = 0 \<longrightarrow> (\<forall>c \<in> set (cells board). c = blank_cell)))"

text \<open>
  Inputs that respect the preconditions of the commands: a \<open>Reveal\<close> or \<open>Flag\<close> names a
  position of the board, and the random engine draws indices of the board. \<open>playable\<close>
  says so for each input of a run, on the board that the input meets.
\<close>

definition input_ok :: "board \<Rightarrow> Command \<times> int list \<times> nat \<Rightarrow> bool" where
  "input_ok board input =
     (case input of (Command verb x y, draws, fresh_seed) \<Rightarrow>
        (verb = Reveal \<or> verb = Flag \<longrightarrow> in_bounds board x y)
        \<and> (\<forall>d \<in> set draws. 0 \<le> d \<and> d < width board * height board))"

fun playable :: "nat \<Rightarrow> board \<Rightarrow> (Command \<times> int list \<times> nat) list \<Rightarrow> bool" where
  "playable n board [] = True"
| "playable n board (input # inputs) =
     (input_ok board input
      \<and> (case main_iteration n board input of
            Inr (out, Continue board') \<Rightarrow> playable n board' inputs
          | _ \<Rightarrow> True))"

text \<open>
  The 3 x 3 board that \<open>init_board\<close> builds for a first Reveal at \<open>(0, 0)\<close> when the engine
  draws position 8: the mine in the corner \<open>(2, 2)\<close>, its three neighbours with counter 1,
  the five other cells with counter 0, and no cell revealed.
\<close>

definition corner_mine_board :: board where
  "corner_mine_board =
     \<lparr>width = 3, height = 3, num_mines = 1,
      cells =
        [\<lparr>is_mine = False, is_revealed = False, is_flagged = False, neighbor_mines = 0\<rparr>,
         \<lparr>is_mine = False, is_revealed = False, is_flagged = False, neighbor_mines = 0\<rparr>,
         \<lparr>is_mine = False, is_revealed = False, is_flagged = False, neighbor_mines = 0\<rparr>,
         \<lparr>is_mine = False, is_revealed = False, is_flagged = False, neighbor_mines = 0\<rparr>,
         \<lparr>is_mine = False, is_revealed = False, is_flagged = False, neighbor_mines = 1\<rparr>,
         \<lparr>is_mine = False, is_revealed = False, is_flagged = False, neighbor_mines = 1\<rparr>,
         \<lparr>is_mine = False, is_revealed = False, is_flagged = False, neighbor_mines = 0\<rparr>,
         \<lparr>is_mine = False, is_revealed = False, is_flagged = False, neighbor_mines = 1\<rparr>,
         \<lparr>is_mine = True, is_revealed = False, is_flagged = False, neighbor_mines = 0\<rparr>],
      seed = 0, game_over = False, time = 1, system = Boris\<rparr>"

section \<open>Basic facts\<close>

lemma and_then_Inl [simp]: "and_then (Inl e) k = Inl e"
  by (simp add: and_then_def)

lemma and_then_Inr [simp]: "and_then (Inr v) k = k v"
  by (simp add: and_then_def)

lemma and_then_eq_Inr: "and_then r k = Inr z \<longleftrightarrow> (\<exists>v. r = Inr v \<and> k v = Inr z)"
  by (cases r) simp_all

lemma visit_all_append: "visit_all f (ps @ qs) s = and_then (visit_all f ps s) (visit_all f qs)"
  by (induction ps arbitrary: s) (auto simp: and_then_def split: sum.splits)

lemma visit_all_append_fun:
  "visit_all f (ps @ qs) = (\<lambda>s. and_then (visit_all f ps s) (visit_all f qs))"
  by (rule ext) (rule visit_all_append)

lemma and_then_cong_Inr:
  "(\<And>v. r = Inr v \<Longrightarrow> k v = k' v) \<Longrightarrow> and_then r k = and_then r k'"
  by (cases r) simp_all

lemma visit_all_dims:
  assumes "\<And>s x y s'. f s x y = Inr s' \<Longrightarrow> width s' = width s \<and> height s' = height s"
  shows "visit_all f ps s = Inr s' \<Longrightarrow> width s' = width s \<and> height s' = height s"
proof (induction ps arbitrary: s)
  case Nil
  then show ?case by simp
next
  case (Cons p ps)
  then obtain s1 where "f s (fst p) (snd p) = Inr s1" "visit_all f ps s1 = Inr s'"
    by (auto simp: and_then_eq_Inr)
  with Cons.IH [of s1] assms [of s "fst p" "snd p" s1] show ?case by simp
qed

lemma visit_column:
  assumes "\<And>s x y s'. f s x y = Inr s' \<Longrightarrow> width s' = width s \<and> height s' = height s"
  shows "and_then (f b xx y) (\<lambda>b.
          and_then (if y > 0 then f b xx (y - 1) else Inr b) (\<lambda>b.
          if y < height b - 1 then f b xx (y + 1) else Inr b))
         = visit_all f ((xx, y) # (if y > 0 then [(xx, y - 1)] else [])
                          @ (if y < height b - 1 then [(xx, y + 1)] else [])) b"
proof (cases "f b xx y")
  case (Inl e)
  then show ?thesis by simp
next
  case (Inr b1)
  note h1 = assms [OF Inr]
  show ?thesis
  proof (cases "y > 0")
    case False
    with Inr h1 show ?thesis by (cases "f b1 xx (y + 1)") simp_all
  next
    case True
    show ?thesis
    proof (cases "f b1 xx (y - 1)")
      case (Inl e)
      with Inr True show ?thesis by simp
    next
      case b2: (Inr b2)
      note h2 = assms [OF b2]
      with Inr True h1 b2 show ?thesis by (cases "f b2 xx (y + 1)") simp_all
    qed
  qed
qed

lemma for_each_neighbour_visit_all:
  fixes board :: "'a board_scheme"
  assumes "\<And>s x y s'. f s x y = Inr s' \<Longrightarrow> width s' = width s \<and> height s' = height s"
  shows "for_each_neighbour board x y f =
           visit_all f (neighbours (width board) (height board) x y) board"
proof -
  let ?w = "width board" and ?h = "height board"
  let ?col = "\<lambda>xx. (xx, y) # (if y > 0 then [(xx, y - 1)] else [])
                          @ (if y < ?h - 1 then [(xx, y + 1)] else [])"
  let ?A = "if x > 0 then ?col (x - 1) else []"
  let ?B = "if x < ?w - 1 then ?col (x + 1) else []"
  let ?C = "if y > 0 then [(x, y - 1)] else []"
  let ?D = "if y < ?h - 1 then [(x, y + 1)] else []"
  have dims: "\<And>ps s s'. visit_all f ps s = Inr s' \<Longrightarrow> width s' = width s \<and> height s' = height s"
    using visit_all_dims [of f] assms by blast
  have col: "\<And>b xx. height b = ?h \<Longrightarrow>
      and_then (f b xx y) (\<lambda>b.
          and_then (if y > 0 then f b xx (y - 1) else Inr b) (\<lambda>b.
          if y < height b - 1 then f b xx (y + 1) else Inr b)) = visit_all f (?col xx) b"
    using visit_column [of f, OF assms] by simp
  have P1: "(if x > 0 then
          and_then (f board (x - 1) y) (\<lambda>board.
          and_then (if y > 0 then f board (x - 1) (y - 1) else Inr board) (\<lambda>board.
          if y < height board - 1 then f board (x - 1) (y + 1) else Inr board))
        else Inr board) = visit_all f ?A board"
    using col [of board "x - 1"] by simp
  have P2: "\<And>b. width b = ?w \<Longrightarrow> height b = ?h \<Longrightarrow>
       (if x < width b - 1 then
          and_then (f b (x + 1) y) (\<lambda>board.
          and_then (if y > 0 then f board (x + 1) (y - 1) else Inr board) (\<lambda>board.
          if y < height board - 1 then f board (x + 1) (y + 1) else Inr board))
        else Inr b) = visit_all f ?B b"
    using col [of _ "x + 1"] by simp
  have P3: "\<And>b. (if y > 0 then f b x (y - 1) else Inr b) = visit_all f ?C b"
  proof -
    fix b show "(if y > 0 then f b x (y - 1) else Inr b) = visit_all f ?C b"
      by (cases "f b x (y - 1)") simp_all
  qed
  have P4: "\<And>b. height b = ?h \<Longrightarrow>
       (if y < height b - 1 then f b x (y + 1) else Inr b) = visit_all f ?D b"
  proof -
    fix b :: "'a board_scheme" assume "height b = ?h"
    then show "(if y < height b - 1 then f b x (y + 1) else Inr b) = visit_all f ?D b"
      by (cases "f b x (y + 1)") simp_all
  qed
  have "for_each_neighbour board x y f =
        and_then (visit_all f ?A board) (\<lambda>b.
        and_then (visit_all f ?B b) (\<lambda>b.
        and_then (visit_all f ?C b) (visit_all f ?D)))"
    unfolding for_each_neighbour_def P1
  proof (rule and_then_cong_Inr)
    fix b1 assume "visit_all f ?A board = Inr b1"
    then have d1: "width b1 = ?w" "height b1 = ?h" using dims by blast+
    show "and_then (if x < width b1 - 1 then
          and_then (f b1 (x + 1) y) (\<lambda>board.
          and_then (if y > 0 then f board (x + 1) (y - 1) else Inr board) (\<lambda>board.
          if y < height board - 1 then f board (x + 1) (y + 1) else Inr board))
        else Inr b1) (\<lambda>board. and_then (if y > 0 then f board x (y - 1) else Inr board)
             (\<lambda>board. if y < height board - 1 then f board x (y + 1) else Inr board))
       = and_then (visit_all f ?B b1) (\<lambda>b. and_then (visit_all f ?C b) (visit_all f ?D))"
      unfolding P2 [OF d1] P3
    proof (rule and_then_cong_Inr)
      fix b2 assume "visit_all f ?B b1 = Inr b2"
      then have d2: "height b2 = ?h" using dims d1 by metis
      show "and_then (visit_all f ?C b2)
              (\<lambda>board. if y < height board - 1 then f board x (y + 1) else Inr board)
            = and_then (visit_all f ?C b2) (visit_all f ?D)"
      proof (rule and_then_cong_Inr)
        fix b3 assume "visit_all f ?C b2 = Inr b3"
        then have "height b3 = ?h" using dims d2 by metis
        then show "(if y < height b3 - 1 then f b3 x (y + 1) else Inr b3) = visit_all f ?D b3"
          by (rule P4)
      qed
    qed
  qed
  moreover have "neighbours ?w ?h x y = ?A @ (?B @ (?C @ ?D))"
    by (simp add: neighbours_def)
  ultimately show ?thesis
    by (simp only: visit_all_append_fun visit_all_append)
qed

section \<open>check_board\<close>

lemma check_cells_counts:
  "check_cells cs a u =
     (a + int (length (filter (\<lambda>c. is_flagged c \<and> is_mine c) cs)),
      u + int (length (filter (\<lambda>c. \<not> is_flagged c \<and> \<not> is_revealed c) cs)))"
  by (induction cs arbitrary: a u) auto

lemma check_board_eq:
  "check_board board =
     (if correctly_flagged board + unrevealed_unflagged board = num_mines board then
        ([''You win!''],
         board\<lparr>cells := map (\<lambda>cell. if is_mine cell then cell\<lparr>is_flagged := True\<rparr> else cell)
                          (cells board),
               game_over := True\<rparr>)
      else ([], board))"
  by (simp add: check_board_def check_cells_counts correctly_flagged_def unrevealed_unflagged_def)

lemma check_board_fresh:
  assumes "cells board = replicate k blank_cell" "num_mines board = int k"
  shows "check_board board = ([''You win!''], board\<lparr>game_over := True\<rparr>)"
proof -
  have "map (\<lambda>cell. if is_mine cell then cell\<lparr>is_flagged := True\<rparr> else cell) (cells board)
          = cells board"
    using assms by (simp add: blank_cell_def)
  then show ?thesis using assms
    by (simp add: check_board_eq correctly_flagged_def unrevealed_unflagged_def blank_cell_def)
qed

text \<open>
  C5. \<open>check_board\<close> announces the win exactly when the number of flagged mines plus the
  number of cells neither flagged nor revealed is \<open>num_mines\<close>, whichever cells carry the
  flags. On a win it sets \<open>game_over\<close> and flags every mine, changing nothing else of the
  cells; otherwise it leaves the board as it is.
\<close>

theorem check_board_win:
  "(''You win!'' \<in> set (fst (check_board board))) =
     (correctly_flagged board + unrevealed_unflagged board = num_mines board)
   \<and> (correctly_flagged board + unrevealed_unflagged board = num_mines board \<longrightarrow>
        game_over (snd (check_board board))
        \<and> (\<forall>c \<in> set (cells (snd (check_board board))). is_mine c \<longrightarrow> is_flagged c)
        \<and> cells (snd (check_board board)) =
            map (\<lambda>c. if is_mine c then c\<lparr>is_flagged := True\<rparr> else c) (cells board))
   \<and> (correctly_flagged board + unrevealed_unflagged board \<noteq> num_mines board \<longrightarrow>
        snd (check_board board) = board)"
  by (auto simp: check_board_eq)

theorem check_board_win_witness:
  "correctly_flagged won_board + unrevealed_unflagged won_board = num_mines won_board
   \<and> ''You win!'' \<in> set (fst (check_board won_board))
   \<and> game_over (snd (check_board won_board))
   \<and> map is_flagged (cells (snd (check_board won_board))) = [True, False]"
proof -
  have h: "correctly_flagged won_board + unrevealed_unflagged won_board = num_mines won_board"
    by (simp add: won_board_def correctly_flagged_def unrevealed_unflagged_def)
  have c: "map is_flagged (map (\<lambda>c. if is_mine c then c\<lparr>is_flagged := True\<rparr> else c)
             (cells won_board)) = [True, False]"
    by (simp add: won_board_def)
  from check_board_win [of won_board] h c show ?thesis by simp
qed

text \<open>
  C10. With as many mines as cells, the first \<open>check_board\<close> of the game announces the win
  and sets \<open>game_over\<close>; the first iteration of the main loop ends the program there,
  whatever command is waiting, so \<open>init_board\<close> never runs and no cell is a mine.
\<close>

theorem full_board_wins_at_once:
  assumes "start_board w h (w * h) s sys = Inr board"
  shows "check_board (board\<lparr>time := 1\<rparr>) = ([''You win!''], board\<lparr>time := 1, game_over := True\<rparr>)
       \<and> main_iteration n board (Command verb x y, draws, fresh_seed) =
           Inr ([''You win!'', ''Game over!''], Exit (board\<lparr>time := 1, game_over := True\<rparr>))
       \<and> mine_count board = 0"
proof -
  from assms have nn: "0 \<le> w * h"
    and b: "board = \<lparr>width = w, height = h, num_mines = w * h,
                      cells = replicate (nat (w * h)) blank_cell, seed = s,
                      game_over = False, time = 0, system = sys\<rparr>"
    by (auto simp: start_board_def resize_cells_def split: if_splits)
  have c: "check_board (board\<lparr>time := 1\<rparr>) = ([''You win!''], board\<lparr>time := 1, game_over := True\<rparr>)"
    using nn by (subst check_board_fresh [where k = "nat (w * h)"]) (simp_all add: b)
  have "board\<lparr>time := time board + 1\<rparr> = board\<lparr>time := 1\<rparr>" by (simp add: b)
  with c have "main_iteration n board (Command verb x y, draws, fresh_seed) =
           Inr ([''You win!'', ''Game over!''], Exit (board\<lparr>time := 1, game_over := True\<rparr>))"
    by (simp add: main_iteration_def)
  moreover have "mine_count board = 0" by (simp add: b blank_cell_def mine_count_def)
  ultimately show ?thesis using c by simp
qed

theorem full_board_wins_at_once_witness:
  "start_board 2 2 (2 * 2) 0 Boris = Inr (fresh_board 2 2 4)
   \<and> main_iteration 5 (fresh_board 2 2 4) (Command Reveal 0 0, [1, 2, 3], 9) =
       Inr ([''You win!'', ''Game over!''], Exit ((fresh_board 2 2 4)\<lparr>time := 1, game_over := True\<rparr>))"
proof -
  have h: "start_board 2 2 (2 * 2) 0 Boris = Inr (fresh_board 2 2 4)"
    by (simp add: start_board_def resize_cells_def fresh_board_def)
  from full_board_wins_at_once [OF h] h show ?thesis by simp
qed

section \<open>The program on concrete games\<close>

text \<open>
  C3. A game of 2 by 2 cells with one mine, in which the player flags a cell and then
  reveals another: the reveal happens in the second iteration, where \<open>time\<close> is 2, so
  \<open>init_board\<close> is not called. The board has no mine, and the reveal opens all of it.
\<close>

theorem flag_first_game_has_no_mine:
  "map_sum id (\<lambda>r. (num_mines (board_of r), mine_count (board_of r),
                      map is_revealed (cells (board_of r))))
     (main_loop 5 (fresh_board 2 2 1)
        [(Command Flag 0 0, [], 0), (Command Reveal 1 1, [0], 0)])
   = Inr (1, 0, [True, True, True, True])"
  by code_simp

text \<open>
  C4. A game of 3 by 3 cells with 8 mines, first reveal at the centre: every other cell
  becomes a mine, the centre has 8 mines around it, and its 4-bit counter holds -8.
\<close>

theorem eight_adjacent_mines_stored_as_minus_eight:
  "map_sum id (\<lambda>b. (is_mine (cell_xy b 1 1), adjacent_mines b 1 1,
                      sint (neighbor_mines (cell_xy b 1 1))))
     (init_board [0, 1, 2, 3, 5, 6, 7, 8] ((fresh_board 3 3 8)\<lparr>time := 1\<rparr>) 1 1)
   = Inr (False, 8, - 8)"
  by code_simp

text \<open>
  C8. A game of 3 cells in a row with one mine, placed at index 1: the player reveals
  cell 0, then the mine. The next iteration's \<open>check_board\<close> finds one cell neither
  flagged nor revealed, announces a win and flags the mine, which is revealed.
\<close>

theorem revealed_mine_is_flagged_by_check_board:
  "map_sum id (\<lambda>r. (is_mine (cell_xy (board_of r) 1 0), is_revealed (cell_xy (board_of r) 1 0),
                      is_flagged (cell_xy (board_of r) 1 0)))
     (main_loop 5 (fresh_board 3 1 1)
        [(Command Reveal 0 0, [1], 0), (Command Reveal 1 0, [], 0), (Command Quit 0 0, [], 0)])
   = Inr (True, True, True)"
  by code_simp

text \<open>
  C6, as stated, fails: the board \<open>row_with_wrong_flag\<close> arises in a game, its cell
  (1, 0) is revealed and shows 1, exactly one neighbour is flagged, and that neighbour,
  (0, 0), is not a mine. The chord at (1, 0) reveals the flagged neighbour and clears its
  flag.
\<close>

theorem chord_reveals_flagged_safe_neighbour:
  "main_loop 5 (fresh_board 4 1 1) [(Command Reveal 1 0, [2], 0), (Command Flag 0 0, [], 0)]
     = Inr (Continue row_with_wrong_flag)
   \<and> is_revealed (cell_xy row_with_wrong_flag 1 0)
   \<and> sint (neighbor_mines (cell_xy row_with_wrong_flag 1 0)) = 1
   \<and> flagged_neighbours row_with_wrong_flag 1 0 = 1
   \<and> (0, 0) \<in> set (neighbours 4 1 1 0)
   \<and> is_flagged (cell_xy row_with_wrong_flag 0 0)
   \<and> map_sum id (\<lambda>r. (fst r, is_flagged (cell_xy (snd r) 0 0), is_revealed (cell_xy (snd r) 0 0)))
        (reveal_command 5 [] row_with_wrong_flag 1 0)
      = Inr ([], False, True)"
  by code_simp

section \<open>The grid\<close>

lemma index_in_range:
  assumes "board_ok board" "in_bounds board x y"
  shows "0 \<le> y * width board + x" "y * width board + x < int (length (cells board))"
proof -
  from assms have w: "0 < width board" and x: "0 \<le> x" "x < width board"
    and y: "0 \<le> y" "y \<le> height board - 1"
    and l: "int (length (cells board)) = width board * height board"
    by (auto simp: board_ok_def in_bounds_def)
  from y(1) w x(1) show "0 \<le> y * width board + x" by simp
  from y(2) w have "y * width board \<le> (height board - 1) * width board"
    by (intro mult_right_mono) simp_all
  also have "\<dots> = width board * height board - width board" by (simp add: algebra_simps)
  finally show "y * width board + x < int (length (cells board))" using x l by linarith
qed

lemma index_div_mod:
  assumes "0 < w" "0 \<le> x" "x < w"
  shows "(y * w + x) div w = y" "(y * w + x) mod w = (x::int)"
  using assms by simp_all

lemma index_inj:
  assumes "0 < w" "0 \<le> x" "x < w" "0 \<le> x'" "x' < w" "y * w + x = y' * w + (x'::int)"
  shows "x = x' \<and> y = y'"
  using index_div_mod [OF assms(1,2,3), of y] index_div_mod [OF assms(1,4,5), of y'] assms(6)
  by simp

lemma cell_at_in_range:
  assumes "board_ok board" "in_bounds board x y"
  shows "cell_at board (y * width board + x) = Inr (cell_xy board x y)"
  using index_in_range [OF assms] by (simp add: cell_at_def cell_xy_def cell_ref_def)

lemma neighbours_filter:
  "neighbours w h x y =
     map (\<lambda>d. (x + fst d, y + snd d))
       (filter (\<lambda>d. (fst d = - 1 \<longrightarrow> x > 0) \<and> (fst d = 1 \<longrightarrow> x < w - 1)
                    \<and> (snd d = - 1 \<longrightarrow> y > 0) \<and> (snd d = 1 \<longrightarrow> y < h - 1))
          [(- 1, 0), (- 1, - 1), (- 1, 1), (1, 0), (1, - 1), (1, 1), (0, - 1), (0, 1)])"
  by (simp add: neighbours_def)

lemma distinct_neighbours: "distinct (neighbours w h x y)"
  unfolding neighbours_filter
  by (rule distinct_map_filter) (simp_all add: inj_on_def)

lemma abs_le_one_iff: "\<bar>d\<bar> \<le> 1 \<longleftrightarrow> d = - 1 \<or> d = 0 \<or> d = (1::int)"
  by arith

lemma neighbour_offsets:
  fixes dx dy :: int
  shows "(dx, dy) \<in> set [(- 1, 0), (- 1, - 1), (- 1, 1), (1, 0), (1, - 1), (1, 1), (0, - 1), (0, 1)]
   \<longleftrightarrow> (dx, dy) \<noteq> (0, 0) \<and> \<bar>dx\<bar> \<le> 1 \<and> \<bar>dy\<bar> \<le> 1"
proof -
  consider "dx = - 1" | "dx = 0" | "dx = 1" | "dx \<noteq> - 1 \<and> dx \<noteq> 0 \<and> dx \<noteq> 1" by blast
  then show ?thesis
  proof cases
    case 1 then show ?thesis unfolding abs_le_one_iff by auto
  next
    case 2 then show ?thesis unfolding abs_le_one_iff by auto
  next
    case 3 then show ?thesis unfolding abs_le_one_iff by auto
  next
    case 4 then show ?thesis unfolding abs_le_one_iff by auto
  qed
qed

lemma in_neighbours_iff:
  assumes "0 \<le> x" "x < w" "0 \<le> y" "y < h"
  shows "(x', y') \<in> set (neighbours w h x y) \<longleftrightarrow>
           0 \<le> x' \<and> x' < w \<and> 0 \<le> y' \<and> y' < h \<and> adjacent (x', y') (x, y)"
proof -
  let ?ds = "[(- 1, 0), (- 1, - 1), (- 1, 1), (1, 0), (1, - 1), (1, 1), (0, - 1), (0, 1::int)]"
  let ?ok = "\<lambda>d::int \<times> int. (fst d = - 1 \<longrightarrow> x > 0) \<and> (fst d = 1 \<longrightarrow> x < w - 1)
                    \<and> (snd d = - 1 \<longrightarrow> y > 0) \<and> (snd d = 1 \<longrightarrow> y < h - 1)"
  have "(x', y') \<in> set (neighbours w h x y) \<longleftrightarrow>
          (\<exists>d. d \<in> set ?ds \<and> ?ok d \<and> (x', y') = (x + fst d, y + snd d))"
    unfolding neighbours_filter set_map set_filter by blast
  also have "\<dots> \<longleftrightarrow> (x' - x, y' - y) \<in> set ?ds \<and> ?ok (x' - x, y' - y)"
  proof
    assume "\<exists>d. d \<in> set ?ds \<and> ?ok d \<and> (x', y') = (x + fst d, y + snd d)"
    then obtain d where d: "d \<in> set ?ds" "?ok d" "(x', y') = (x + fst d, y + snd d)"
      by blast
    from d(3) have "d = (x' - x, y' - y)" by (simp add: prod_eq_iff)
    with d(1,2) show "(x' - x, y' - y) \<in> set ?ds \<and> ?ok (x' - x, y' - y)" by blast
  next
    assume m: "(x' - x, y' - y) \<in> set ?ds \<and> ?ok (x' - x, y' - y)"
    have "(x', y') = (x + fst (x' - x, y' - y), y + snd (x' - x, y' - y))" by simp
    with m show "\<exists>d. d \<in> set ?ds \<and> ?ok d \<and> (x', y') = (x + fst d, y + snd d)" by blast
  qed
  also have "\<dots> \<longleftrightarrow> ((x' - x, y' - y) \<noteq> (0, 0) \<and> \<bar>x' - x\<bar> \<le> 1 \<and> \<bar>y' - y\<bar> \<le> 1)
                         \<and> ?ok (x' - x, y' - y)"
    by (simp only: neighbour_offsets)
  also have "\<dots> \<longleftrightarrow> 0 \<le> x' \<and> x' < w \<and> 0 \<le> y' \<and> y' < h \<and> adjacent (x', y') (x, y)"
  proof -
    have X: "\<bar>x' - x\<bar> \<le> 1 \<Longrightarrow>
               ((x' - x = - 1 \<longrightarrow> x > 0) \<and> (x' - x = 1 \<longrightarrow> x < w - 1)) = (0 \<le> x' \<and> x' < w)"
      using assms(1,2) by arith
    have Y: "\<bar>y' - y\<bar> \<le> 1 \<Longrightarrow>
               ((y' - y = - 1 \<longrightarrow> y > 0) \<and> (y' - y = 1 \<longrightarrow> y < h - 1)) = (0 \<le> y' \<and> y' < h)"
      using assms(3,4) by arith
    have N: "((x' - x, y' - y) \<noteq> (0, 0)) = ((x', y') \<noteq> (x, y))" by simp
    show ?thesis unfolding adjacent_def fst_conv snd_conv N using X Y by blast
  qed
  finally show ?thesis .
qed

lemma set_neighbours:
  assumes "0 \<le> x" "x < w" "0 \<le> y" "y < h"
  shows "set (neighbours w h x y) =
           {p. 0 \<le> fst p \<and> fst p < w \<and> 0 \<le> snd p \<and> snd p < h \<and> adjacent p (x, y)}"
  using in_neighbours_iff [OF assms] by auto

lemma length_neighbours: "length (neighbours w h x y) \<le> 8"
  by (simp add: neighbours_def)

lemma adjacent_sym: "adjacent p q = adjacent q p"
  by (auto simp: adjacent_def abs_minus_commute)

lemma neighbours_in_bounds:
  assumes "in_bounds board x y" "p \<in> set (neighbours (width board) (height board) x y)"
  shows "in_bounds board (fst p) (snd p)"
  using assms by (simp add: in_bounds_def set_neighbours)

lemma neighbours_sym:
  assumes "in_bounds board x y" "in_bounds board x' y'"
  shows "(x', y') \<in> set (neighbours (width board) (height board) x y)
         \<longleftrightarrow> (x, y) \<in> set (neighbours (width board) (height board) x' y')"
  using assms adjacent_sym [of "(x, y)" "(x', y')"] by (simp add: in_bounds_def set_neighbours)

section \<open>Visiting a list of positions\<close>

lemma visit_all_rel:
  assumes refl: "\<And>s. R s s" and trans: "\<And>s t u. R s t \<Longrightarrow> R t u \<Longrightarrow> R s u"
    and step: "\<And>s p s'. p \<in> set ps \<Longrightarrow> f s (fst p) (snd p) = Inr s' \<Longrightarrow> R s s'"
  shows "visit_all f ps s = Inr s' \<Longrightarrow> R s s'"
  using step
proof (induction ps arbitrary: s)
  case Nil
  then show ?case by (simp add: refl)
next
  case (Cons p ps)
  from Cons.prems(1) obtain s1 where s1: "f s (fst p) (snd p) = Inr s1" "visit_all f ps s1 = Inr s'"
    by (auto simp: and_then_eq_Inr)
  have "R s s1" using Cons.prems(2) [of p s s1] s1(1) by simp
  moreover have "R s1 s'"
  proof (rule Cons.IH [OF s1(2)])
    fix q t t' assume "q \<in> set ps" "f t (fst q) (snd q) = Inr t'"
    then show "R t t'" using Cons.prems(2) [of q t t'] by simp
  qed
  ultimately show ?case by (rule trans)
qed

text \<open>
  A Hoare-style rule: when every visit keeps the invariant or fails with an error of \<open>E\<close>,
  so does the visit of the whole list.
\<close>

lemma visit_all_inv:
  assumes "I s"
    and "\<And>s p. I s \<Longrightarrow> p \<in> set ps \<Longrightarrow>
           (case f s (fst p) (snd p) of Inr s' \<Rightarrow> I s' | Inl e \<Rightarrow> e \<in> E)"
  shows "case visit_all f ps s of Inr s' \<Rightarrow> I s' | Inl e \<Rightarrow> e \<in> E"
  using assms
proof (induction ps arbitrary: s)
  case Nil
  then show ?case by simp
next
  case (Cons p ps)
  show ?case
  proof (cases "f s (fst p) (snd p)")
    case (Inl e)
    with Cons.prems(2) [OF Cons.prems(1), of p] show ?thesis by simp
  next
    case (Inr s1)
    with Cons.prems(2) [OF Cons.prems(1), of p] have "I s1" by simp
    from Cons.IH [OF this] Cons.prems(2) Inr show ?thesis by simp
  qed
qed

section \<open>Boards evolving under reveal\<close>

lemma reveal_or_keep_refl: "reveal_or_keep c c"
  by (simp add: reveal_or_keep_def)

lemma reveal_or_keep_trans:
  "reveal_or_keep a b \<Longrightarrow> reveal_or_keep b c \<Longrightarrow> reveal_or_keep a c"
  by (auto simp: reveal_or_keep_def)

lemma evolves_refl: "evolves board board"
  by (simp add: evolves_def list_all2_refl reveal_or_keep_refl)

lemma evolves_trans:
  assumes "evolves a b" "evolves b c"
  shows "evolves a c"
proof -
  from assms have "list_all2 reveal_or_keep (cells a) (cells c)"
    unfolding evolves_def using list_all2_trans [of reveal_or_keep reveal_or_keep reveal_or_keep]
      reveal_or_keep_trans by blast
  moreover from assms have "c = a\<lparr>cells := cells c\<rparr>"
    unfolding evolves_def by (metis board.surjective board.update_convs(4))
  ultimately show ?thesis by (simp add: evolves_def)
qed

lemma evolves_fields:
  assumes "evolves board board'"
  shows "width board' = width board" "height board' = height board"
    "num_mines board' = num_mines board" "game_over board' = game_over board"
    "time board' = time board" "seed board' = seed board" "system board' = system board"
    "length (cells board') = length (cells board)"
proof -
  from assms have e: "board' = board\<lparr>cells := cells board'\<rparr>"
    and l: "list_all2 reveal_or_keep (cells board) (cells board')"
    by (simp_all add: evolves_def)
  show "width board' = width board" by (subst e) simp
  show "height board' = height board" by (subst e) simp
  show "num_mines board' = num_mines board" by (subst e) simp
  show "game_over board' = game_over board" by (subst e) simp
  show "time board' = time board" by (subst e) simp
  show "seed board' = seed board" by (subst e) simp
  show "system board' = system board" by (subst e) simp
  from l show "length (cells board') = length (cells board)"
    by (simp add: list_all2_lengthD)
qed

lemma evolves_cell:
  assumes "evolves board board'" "i < length (cells board)"
  shows "reveal_or_keep (cells board ! i) (cells board' ! i)"
  using assms by (simp add: evolves_def list_all2_conv_all_nth)

lemma evolves_set_cell:
  assumes "0 \<le> i" "i < int (length (cells board))" "\<not> is_revealed (cells board ! nat i)"
  shows "evolves board
           (set_cell board i ((cells board ! nat i)\<lparr>is_flagged := False, is_revealed := True\<rparr>))"
proof -
  have "list_all2 reveal_or_keep (cells board)
          ((cells board)[nat i := (cells board ! nat i)\<lparr>is_flagged := False, is_revealed := True\<rparr>])"
    using assms
    by (auto simp: list_all2_conv_all_nth nth_list_update reveal_or_keep_def)
  then show ?thesis by (simp add: evolves_def set_cell_def)
qed

section \<open>reveal: what it leaves unchanged\<close>

lemma set_cell_fields [simp]:
  "width (set_cell board i c) = width board" "height (set_cell board i c) = height board"
  "length (cells (set_cell board i c)) = length (cells board)"
  by (simp_all add: set_cell_def)

lemma cell_at_Inr:
  "cell_at board i = Inr c \<longleftrightarrow> 0 \<le> i \<and> i < int (length (cells board)) \<and> c = cells board ! nat i"
  by (auto simp: cell_at_def)

lemma visit_all_evolves:
  assumes "visit_all f ps s = Inr s'"
    and "\<And>s p s'. p \<in> set ps \<Longrightarrow> f s (fst p) (snd p) = Inr s' \<Longrightarrow> evolves s s'"
  shows "evolves s s'"
proof (rule visit_all_rel [where R = evolves and f = f and ps = ps])
  show "\<And>s. evolves s s" by (rule evolves_refl)
  show "\<And>s t u. evolves s t \<Longrightarrow> evolves t u \<Longrightarrow> evolves s u" by (rule evolves_trans)
  show "\<And>s p s'. p \<in> set ps \<Longrightarrow> f s (fst p) (snd p) = Inr s' \<Longrightarrow> evolves s s'"
    by (rule assms(2))
  show "visit_all f ps s = Inr s'" by (rule assms(1))
qed

lemma reveal_evolves:
  fixes board :: "'a board_scheme"
  shows "reveal n board x y = Inr board' \<Longrightarrow> evolves board board'"
proof (induction n arbitrary: board x y board')
  case 0
  then show ?case by simp
next
  case (Suc n)
  let ?i = "y * width board + x"
  from Suc.prems obtain c where c: "cell_at board ?i = Inr c"
    by (cases "cell_at board ?i") simp_all
  then have i: "0 \<le> ?i" "?i < int (length (cells board))" and cv: "c = cells board ! nat ?i"
    by (simp_all add: cell_at_Inr)
  let ?b1 = "set_cell board ?i (c\<lparr>is_flagged := False, is_revealed := True\<rparr>)"
  show ?case
  proof (cases "is_revealed c")
    case True
    with Suc.prems c show ?thesis by (simp add: evolves_refl)
  next
    case False
    then have e1: "evolves board ?b1" using evolves_set_cell [OF i] cv by simp
    show ?thesis
    proof (cases "is_mine c \<or> sint (neighbor_mines c) > 0")
      case True
      with Suc.prems c False have "board' = ?b1" by (auto simp: Let_def split: if_splits)
      with e1 show ?thesis by simp
    next
      case stop: False
      have dims: "\<And>(s::'a board_scheme) x y s'. reveal n s x y = Inr s' \<Longrightarrow> width s' = width s \<and> height s' = height s"
        using Suc.IH evolves_fields(1,2) by blast
      from Suc.prems c False stop
      have "for_each_neighbour ?b1 x y (\<lambda>board x y. reveal n board x y) = Inr board'"
        by (auto simp: Let_def)
      then have "visit_all (\<lambda>board x y. reveal n board x y)
                   (neighbours (width ?b1) (height ?b1) x y) ?b1 = Inr board'"
        using for_each_neighbour_visit_all [of "\<lambda>board x y. reveal n board x y" ?b1 x y] dims
        by simp
      then have "evolves ?b1 board'"
        by (rule visit_all_evolves) (rule Suc.IH)
      with e1 show ?thesis by (rule evolves_trans)
    qed
  qed
qed

lemma reveal_dims:
  "reveal n s x y = Inr s' \<Longrightarrow> width s' = width s \<and> height s' = height s"
  using reveal_evolves evolves_fields(1,2) by blast

text \<open>The recursive equation of \<open>reveal\<close>, with the neighbours as a list.\<close>

lemma reveal_Suc:
  fixes board :: "'a board_scheme"
  shows "reveal (Suc n) board x y =
     (case cell_at board (y * width board + x) of
        Inl e \<Rightarrow> Inl e
      | Inr c \<Rightarrow>
          if is_revealed c then Inr board
          else if is_mine c \<or> sint (neighbor_mines c) > 0 then
            Inr (set_cell board (y * width board + x) (c\<lparr>is_flagged := False, is_revealed := True\<rparr>))
          else
            visit_all (reveal n) (neighbours (width board) (height board) x y)
              (set_cell board (y * width board + x) (c\<lparr>is_flagged := False, is_revealed := True\<rparr>)))"
proof -
  have "\<And>b::'a board_scheme. for_each_neighbour b x y (reveal n) =
          visit_all (reveal n) (neighbours (width b) (height b) x y) b"
    by (rule for_each_neighbour_visit_all) (rule reveal_dims)
  then show ?thesis
    by (simp add: Let_def split: sum.splits)
qed

declare reveal.simps(2) [simp del]

section \<open>reveal: termination and safety\<close>

lemma evolves_board_ok: "evolves board board' \<Longrightarrow> board_ok board \<Longrightarrow> board_ok board'"
  by (simp add: board_ok_def evolves_fields)

lemma evolves_in_bounds: "evolves board board' \<Longrightarrow> in_bounds board' x y = in_bounds board x y"
  by (simp add: in_bounds_def evolves_fields)

lemma evolves_neighbours:
  "evolves board board' \<Longrightarrow>
   neighbours (width board') (height board') x y = neighbours (width board) (height board) x y"
  by (simp add: evolves_fields)

lemma evolves_revealed:
  assumes "evolves board board'" "i < length (cells board)" "is_revealed (cells board ! i)"
  shows "cells board' ! i = cells board ! i"
  using evolves_cell [OF assms(1,2)] assms(3) by (simp add: reveal_or_keep_def)

lemma evolves_unrevealed_count:
  assumes "evolves board board'"
  shows "unrevealed_count board' \<le> unrevealed_count board"
proof -
  have "{i. i < length (cells board') \<and> \<not> is_revealed (cells board' ! i)}
          \<subseteq> {i. i < length (cells board) \<and> \<not> is_revealed (cells board ! i)}"
  proof clarify
    fix i assume i: "i < length (cells board')" and u: "\<not> is_revealed (cells board' ! i)"
    from i have i': "i < length (cells board)" using evolves_fields(8) [OF assms] by simp
    from evolves_cell [OF assms i'] u have "\<not> is_revealed (cells board ! i)"
      by (auto simp: reveal_or_keep_def)
    with i' show "i < length (cells board) \<and> \<not> is_revealed (cells board ! i)" by simp
  qed
  then show ?thesis
    unfolding unrevealed_count_def length_filter_conv_card by (intro card_mono) simp_all
qed

lemma set_cell_unrevealed_count:
  assumes "0 \<le> i" "i < int (length (cells board))" "\<not> is_revealed (cells board ! nat i)"
    "is_revealed c"
  shows "unrevealed_count (set_cell board i c) < unrevealed_count board"
proof -
  let ?A = "{j. j < length (cells board) \<and> \<not> is_revealed ((cells board)[nat i := c] ! j)}"
  let ?B = "{j. j < length (cells board) \<and> \<not> is_revealed (cells board ! j)}"
  have n: "nat i < length (cells board)" using assms(1,2) by simp
  have "\<And>j. j \<in> ?A \<Longrightarrow> j \<in> ?B"
    using assms(3,4) by (case_tac "j = nat i") simp_all
  moreover have "nat i \<in> ?B" using n assms(3) by simp
  moreover have "nat i \<notin> ?A" using n assms(4) by simp
  ultimately have "?A \<subset> ?B" by blast
  then show ?thesis
    unfolding unrevealed_count_def length_filter_conv_card set_cell_def
    by (simp add: psubset_card_mono)
qed

lemma unrevealed_count_le: "unrevealed_count board \<le> length (cells board)"
  by (simp add: unrevealed_count_def)

text \<open>
  On a well-formed board and a position of the grid, \<open>reveal\<close> reads no cell outside the
  vector: it returns a board, or the model ran out of depth.
\<close>

lemma reveal_safe:
  fixes board :: "'a board_scheme"
  assumes "board_ok board" "in_bounds board x y"
  shows "case reveal n board x y of Inr board' \<Rightarrow> evolves board board' | Inl e \<Rightarrow> e \<in> {OutOfFuel}"
  using assms
proof (induction n arbitrary: board x y)
  case 0
  then show ?case by simp
next
  case (Suc n)
  let ?i = "y * width board + x"
  let ?c = "cell_xy board x y"
  let ?b1 = "set_cell board ?i (?c\<lparr>is_flagged := False, is_revealed := True\<rparr>)"
  note c = cell_at_in_range [OF Suc.prems]
  note i = index_in_range [OF Suc.prems]
  show ?case
  proof (cases "is_revealed ?c")
    case True
    then show ?thesis by (simp add: reveal_Suc c evolves_refl)
  next
    case False
    then have e1: "evolves board ?b1"
      using evolves_set_cell [OF i] by (simp add: cell_xy_def cell_ref_def)
    show ?thesis
    proof (cases "is_mine ?c \<or> sint (neighbor_mines ?c) > 0")
      case True
      with False e1 show ?thesis by (simp add: reveal_Suc c)
    next
      case go: False
      have "case visit_all (reveal n) (neighbours (width board) (height board) x y) ?b1 of
              Inr s' \<Rightarrow> evolves ?b1 s' | Inl e \<Rightarrow> e \<in> {OutOfFuel}"
      proof (rule visit_all_inv [where I = "evolves ?b1"])
        show "evolves ?b1 ?b1" by (rule evolves_refl)
      next
        fix s :: "'a board_scheme" and p
        assume s: "evolves ?b1 s" and p: "p \<in> set (neighbours (width board) (height board) x y)"
        have es: "evolves board s" using e1 s by (rule evolves_trans)
        have "board_ok s" using es Suc.prems(1) by (rule evolves_board_ok)
        moreover have "in_bounds s (fst p) (snd p)"
          using neighbours_in_bounds [OF Suc.prems(2) p] evolves_in_bounds [OF es] by simp
        ultimately have "case reveal n s (fst p) (snd p) of
                           Inr s' \<Rightarrow> evolves s s' | Inl e \<Rightarrow> e \<in> {OutOfFuel}"
          by (rule Suc.IH)
        then show "case reveal n s (fst p) (snd p) of
                     Inr s' \<Rightarrow> evolves ?b1 s' | Inl e \<Rightarrow> e \<in> {OutOfFuel}"
          using evolves_trans [OF s] by (cases "reveal n s (fst p) (snd p)") simp_all
      qed
      then have "case visit_all (reveal n) (neighbours (width board) (height board) x y) ?b1 of
              Inr s' \<Rightarrow> evolves board s' | Inl e \<Rightarrow> e \<in> {OutOfFuel}"
        using evolves_trans [OF e1]
        by (cases "visit_all (reveal n) (neighbours (width board) (height board) x y) ?b1")
           simp_all
      then show ?thesis using False go
        by (simp add: reveal_Suc c)
    qed
  qed
qed

text \<open>A depth above the number of unrevealed cells is enough for \<open>reveal\<close> to return.\<close>

lemma reveal_total:
  fixes board :: "'a board_scheme"
  assumes "board_ok board" "in_bounds board x y" "unrevealed_count board < n"
  shows "\<exists>board'. reveal n board x y = Inr board'"
  using assms
proof (induction n arbitrary: board x y)
  case 0
  then show ?case by simp
next
  case (Suc n)
  let ?i = "y * width board + x"
  let ?c = "cell_xy board x y"
  let ?b1 = "set_cell board ?i (?c\<lparr>is_flagged := False, is_revealed := True\<rparr>)"
  note c = cell_at_in_range [OF Suc.prems(1,2)]
  note i = index_in_range [OF Suc.prems(1,2)]
  show ?case
  proof (cases "is_revealed ?c")
    case True
    then show ?thesis by (simp add: reveal_Suc c)
  next
    case False
    then have e1: "evolves board ?b1"
      using evolves_set_cell [OF i] by (simp add: cell_xy_def cell_ref_def)
    have u1: "unrevealed_count ?b1 < n"
      using set_cell_unrevealed_count [OF i, of "?c\<lparr>is_flagged := False, is_revealed := True\<rparr>"]
        False Suc.prems(3)
      by (simp add: cell_xy_def cell_ref_def)
    show ?thesis
    proof (cases "is_mine ?c \<or> sint (neighbor_mines ?c) > 0")
      case True
      with False show ?thesis by (simp add: reveal_Suc c)
    next
      case go: False
      have "case visit_all (reveal n) (neighbours (width board) (height board) x y) ?b1 of
              Inr s' \<Rightarrow> evolves ?b1 s' | Inl e \<Rightarrow> e \<in> {}"
      proof (rule visit_all_inv [where I = "evolves ?b1"])
        show "evolves ?b1 ?b1" by (rule evolves_refl)
      next
        fix s :: "'a board_scheme" and p
        assume s: "evolves ?b1 s" and p: "p \<in> set (neighbours (width board) (height board) x y)"
        have es: "evolves board s" using e1 s by (rule evolves_trans)
        have "board_ok s" using es Suc.prems(1) by (rule evolves_board_ok)
        moreover have "in_bounds s (fst p) (snd p)"
          using neighbours_in_bounds [OF Suc.prems(2) p] evolves_in_bounds [OF es] by simp
        moreover have "unrevealed_count s < n"
          using evolves_unrevealed_count [OF s] u1 by simp
        ultimately obtain s' where s': "reveal n s (fst p) (snd p) = Inr s'"
          using Suc.IH by blast
        then have "evolves s s'" by (rule reveal_evolves)
        with s have "evolves ?b1 s'" by (rule evolves_trans)
        with s' show "case reveal n s (fst p) (snd p) of
                     Inr s' \<Rightarrow> evolves ?b1 s' | Inl e \<Rightarrow> e \<in> {}"
          by simp
      qed
      then show ?thesis using False go
        by (cases "visit_all (reveal n) (neighbours (width board) (height board) x y) ?b1")
           (simp_all add: reveal_Suc c)
    qed
  qed
qed

lemma reveal_reveals:
  fixes board :: "'a board_scheme"
  assumes "board_ok board" "in_bounds board x y" "reveal n board x y = Inr board'"
  shows "is_revealed (cell_xy board' x y)"
proof (cases n)
  case 0
  with assms(3) show ?thesis by simp
next
  case (Suc m)
  let ?i = "y * width board + x"
  let ?c = "cell_xy board x y"
  let ?b1 = "set_cell board ?i (?c\<lparr>is_flagged := False, is_revealed := True\<rparr>)"
  note c = cell_at_in_range [OF assms(1,2)]
  note i = index_in_range [OF assms(1,2)]
  have w: "width board' = width board"
    using reveal_evolves [OF assms(3)] by (simp add: evolves_fields)
  show ?thesis
  proof (cases "is_revealed ?c")
    case True
    with assms(3) Suc show ?thesis by (simp add: reveal_Suc c)
  next
    case False
    have r1: "is_revealed (cells ?b1 ! nat ?i)" using i by (simp add: set_cell_def)
    have "evolves ?b1 board'"
    proof (cases "is_mine ?c \<or> sint (neighbor_mines ?c) > 0")
      case True
      with assms(3) Suc False show ?thesis by (simp add: reveal_Suc c evolves_refl)
    next
      case go: False
      with assms(3) Suc False
      have "visit_all (reveal m) (neighbours (width board) (height board) x y) ?b1 = Inr board'"
        by (simp add: reveal_Suc c)
      then show ?thesis by (rule visit_all_evolves) (rule reveal_evolves)
    qed
    from evolves_revealed [OF this _ r1] i r1 show ?thesis
      by (simp add: cell_xy_def cell_ref_def w)
  qed
qed

section \<open>init_board: laying one mine\<close>

lemma sdiv_smod_nonneg:
  fixes k l :: int
  assumes "0 \<le> k" "0 < l"
  shows "k sdiv l = k div l" "k smod l = k mod l"
  using assms by (simp_all add: signed_divide_int_def signed_modulo_int_def sgn_if)

lemma set_positions: "set (positions board) = {p. in_bounds board (fst p) (snd p)}"
  by (auto simp: positions_def in_bounds_def)

lemma in_positions [simp]: "(x, y) \<in> set (positions board) \<longleftrightarrow> in_bounds board x y"
  by (simp add: set_positions)

lemma same_but_cells_refl: "same_but_cells board board"
  by (simp add: same_but_cells_def)

lemma same_but_cells_trans:
  assumes "same_but_cells a b" "same_but_cells b c"
  shows "same_but_cells a c"
proof -
  from assms have "c = a\<lparr>cells := cells c\<rparr>"
    unfolding same_but_cells_def by (metis board.surjective board.update_convs(4))
  with assms show ?thesis by (simp add: same_but_cells_def)
qed

lemma same_but_cells_fields:
  assumes "same_but_cells board board'"
  shows "width board' = width board" "height board' = height board"
    "num_mines board' = num_mines board" "game_over board' = game_over board"
    "time board' = time board" "seed board' = seed board" "system board' = system board"
    "length (cells board') = length (cells board)"
proof -
  from assms have e: "board' = board\<lparr>cells := cells board'\<rparr>"
    and l: "length (cells board') = length (cells board)"
    by (simp_all add: same_but_cells_def)
  show "width board' = width board" by (subst e) simp
  show "height board' = height board" by (subst e) simp
  show "num_mines board' = num_mines board" by (subst e) simp
  show "game_over board' = game_over board" by (subst e) simp
  show "time board' = time board" by (subst e) simp
  show "seed board' = seed board" by (subst e) simp
  show "system board' = system board" by (subst e) simp
  from l show "length (cells board') = length (cells board)" .
qed

lemma same_but_cells_board_ok:
  "same_but_cells board board' \<Longrightarrow> board_ok board \<Longrightarrow> board_ok board'"
  by (simp add: board_ok_def same_but_cells_fields)

lemma same_but_cells_in_bounds:
  "same_but_cells board board' \<Longrightarrow> in_bounds board' x y = in_bounds board x y"
  by (simp add: in_bounds_def same_but_cells_fields)

lemma same_but_cells_set_cell: "same_but_cells board (set_cell board i c)"
  by (simp add: same_but_cells_def set_cell_def)

lemma evolves_same_but_cells: "evolves board board' \<Longrightarrow> same_but_cells board board'"
  by (auto simp: same_but_cells_def evolves_def dest: list_all2_lengthD)

lemma cell_xy_set_cell:
  assumes "board_ok board" "in_bounds board x y" "in_bounds board u v"
  shows "cell_xy (set_cell board (y * width board + x) c) u v =
           (if (u, v) = (x, y) then c else cell_xy board u v)"
proof -
  note i = index_in_range [OF assms(1,2)]
  note j = index_in_range [OF assms(1,3)]
  have "nat (v * width board + u) = nat (y * width board + x) \<longleftrightarrow> (u, v) = (x, y)"
  proof
    assume "nat (v * width board + u) = nat (y * width board + x)"
    with i(1) j(1) have "v * width board + u = y * width board + x" by simp
    then show "(u, v) = (x, y)"
      using index_inj [of "width board" u x v y] assms by (simp add: board_ok_def in_bounds_def)
  qed simp
  then show ?thesis using i j
    by (auto simp: cell_xy_def cell_ref_def set_cell_def nth_list_update)
qed

lemma init_board_visit_result:
  fixes s :: "'a board_scheme"
  assumes "board_ok s" "in_bounds s x y"
  shows "init_board_visit s x y =
           Inr (if \<not> is_mine (cell_xy s x y)
                then set_cell s (y * width s + x)
                       ((cell_xy s x y)\<lparr>neighbor_mines := neighbor_mines (cell_xy s x y) + 1\<rparr>)
                else s)"
  by (simp add: init_board_visit_def cell_at_in_range [OF assms])

lemma init_board_visit_dims:
  "init_board_visit s x y = Inr s' \<Longrightarrow> width s' = width s \<and> height s' = height s"
  by (auto simp: init_board_visit_def and_then_eq_Inr split: if_splits)

lemma visit_all_init_board_visit:
  fixes s :: "'a board_scheme"
  assumes "board_ok s" "\<forall>p \<in> set ps. in_bounds s (fst p) (snd p)" "distinct ps"
  shows "\<exists>s'. visit_all init_board_visit ps s = Inr s' \<and> same_but_cells s s'
           \<and> (\<forall>u v. in_bounds s u v \<longrightarrow>
                 cell_xy s' u v =
                   (if (u, v) \<in> set ps \<and> \<not> is_mine (cell_xy s u v)
                    then (cell_xy s u v)\<lparr>neighbor_mines := neighbor_mines (cell_xy s u v) + 1\<rparr>
                    else cell_xy s u v))"
  using assms
proof (induction ps arbitrary: s)
  case Nil
  then show ?case by (simp add: same_but_cells_refl)
next
  case (Cons p ps)
  obtain x y where p: "p = (x, y)" by (cases p)
  from Cons.prems p have xy: "in_bounds s x y" by simp
  let ?inc = "\<lambda>c. c\<lparr>neighbor_mines := neighbor_mines c + 1\<rparr>"
  define s1 where "s1 = (if \<not> is_mine (cell_xy s x y)
                          then set_cell s (y * width s + x) (?inc (cell_xy s x y)) else s)"
  have v: "init_board_visit s x y = Inr s1"
    unfolding s1_def by (rule init_board_visit_result [OF Cons.prems(1) xy])
  have sb: "same_but_cells s s1"
    by (simp add: s1_def same_but_cells_refl same_but_cells_set_cell)
  have c1: "\<And>u v. in_bounds s u v \<Longrightarrow>
             cell_xy s1 u v = (if (u, v) = (x, y) \<and> \<not> is_mine (cell_xy s x y)
                               then ?inc (cell_xy s x y) else cell_xy s u v)"
    using cell_xy_set_cell [OF Cons.prems(1) xy] xy by (simp add: s1_def)
  have ok1: "board_ok s1" using sb Cons.prems(1) by (rule same_but_cells_board_ok)
  have in1: "\<forall>q \<in> set ps. in_bounds s1 (fst q) (snd q)"
    using Cons.prems(2) same_but_cells_in_bounds [OF sb] by simp
  from Cons.prems(3) have d: "distinct ps" and np: "(x, y) \<notin> set ps" by (simp_all add: p)
  from Cons.IH [OF ok1 in1 d] obtain s' where
    s': "visit_all init_board_visit ps s1 = Inr s'" "same_but_cells s1 s'"
    and c': "\<And>u v. in_bounds s1 u v \<Longrightarrow>
                 cell_xy s' u v =
                   (if (u, v) \<in> set ps \<and> \<not> is_mine (cell_xy s1 u v)
                    then ?inc (cell_xy s1 u v) else cell_xy s1 u v)"
    by blast
  have "visit_all init_board_visit (p # ps) s = Inr s'" using v s'(1) by (simp add: p)
  moreover have "same_but_cells s s'" using sb s'(2) by (rule same_but_cells_trans)
  moreover have "\<forall>u v. in_bounds s u v \<longrightarrow>
                 cell_xy s' u v =
                   (if (u, v) \<in> set (p # ps) \<and> \<not> is_mine (cell_xy s u v)
                    then ?inc (cell_xy s u v) else cell_xy s u v)"
  proof (intro allI impI)
    fix u v assume uv: "in_bounds s u v"
    then have uv1: "in_bounds s1 u v" using same_but_cells_in_bounds [OF sb] by simp
    show "cell_xy s' u v =
                   (if (u, v) \<in> set (p # ps) \<and> \<not> is_mine (cell_xy s u v)
                    then ?inc (cell_xy s u v) else cell_xy s u v)"
    proof (cases "(u, v) = (x, y)")
      case True
      have "cell_xy s' u v = cell_xy s1 u v" using c' [OF uv1] np True by simp
      then show ?thesis using c1 [OF uv] True by (simp add: p)
    next
      case False
      have e: "cell_xy s1 u v = cell_xy s u v" using c1 [OF uv] False by auto
      show ?thesis using c' [OF uv1] False unfolding e by (auto simp: p)
    qed
  qed
  ultimately show ?case by blast
qed

lemma lay_mine:
  fixes board :: "'a board_scheme"
  assumes "board_ok board" "in_bounds board px py"
  shows "\<exists>board'.
           for_each_neighbour
             (set_cell board (py * width board + px)
                ((cell_xy board px py)\<lparr>is_mine := True, neighbor_mines := 0\<rparr>))
             px py init_board_visit = Inr board'
           \<and> mine_laid board px py board'"
proof -
  let ?m = "(cell_xy board px py)\<lparr>is_mine := True, neighbor_mines := 0\<rparr>"
  let ?b0 = "set_cell board (py * width board + px) ?m"
  let ?ns = "neighbours (width board) (height board) px py"
  have sb0: "same_but_cells board ?b0" by (rule same_but_cells_set_cell)
  have ok0: "board_ok ?b0" using sb0 assms(1) by (rule same_but_cells_board_ok)
  have c0: "\<And>u v. in_bounds board u v \<Longrightarrow>
              cell_xy ?b0 u v = (if (u, v) = (px, py) then ?m else cell_xy board u v)"
    by (rule cell_xy_set_cell [OF assms])
  have in0: "\<forall>p \<in> set ?ns. in_bounds ?b0 (fst p) (snd p)"
    using neighbours_in_bounds [OF assms(2)] same_but_cells_in_bounds [OF sb0] by simp
  have self: "(px, py) \<notin> set ?ns"
    using assms(2) by (simp add: in_neighbours_iff in_bounds_def adjacent_def)
  from visit_all_init_board_visit [OF ok0 in0 distinct_neighbours] obtain b' where
    b': "visit_all init_board_visit ?ns ?b0 = Inr b'" "same_but_cells ?b0 b'"
    and c': "\<And>u v. in_bounds ?b0 u v \<Longrightarrow>
              cell_xy b' u v =
                (if (u, v) \<in> set ?ns \<and> \<not> is_mine (cell_xy ?b0 u v)
                 then (cell_xy ?b0 u v)\<lparr>neighbor_mines := neighbor_mines (cell_xy ?b0 u v) + 1\<rparr>
                 else cell_xy ?b0 u v)"
    by blast
  have "for_each_neighbour ?b0 px py init_board_visit = Inr b'"
    using for_each_neighbour_visit_all [of init_board_visit ?b0 px py, OF init_board_visit_dims] b'(1)
    by simp
  moreover have "mine_laid board px py b'"
    unfolding mine_laid_def
  proof (intro conjI ballI)
    show "same_but_cells board b'" using sb0 b'(2) by (rule same_but_cells_trans)
  next
    fix p assume "p \<in> set (positions board)"
    then have p: "in_bounds board (fst p) (snd p)" by (simp add: set_positions)
    then have p0: "in_bounds ?b0 (fst p) (snd p)" using same_but_cells_in_bounds [OF sb0] by simp
    show "cell_xy b' (fst p) (snd p) =
              (if p = (px, py) then ?m
               else if p \<in> set ?ns \<and> \<not> is_mine (cell_xy board (fst p) (snd p))
               then (cell_xy board (fst p) (snd p))
                      \<lparr>neighbor_mines := neighbor_mines (cell_xy board (fst p) (snd p)) + 1\<rparr>
               else cell_xy board (fst p) (snd p))"
    proof (cases "p = (px, py)")
      case True
      have "cell_xy b' (fst p) (snd p) = cell_xy ?b0 (fst p) (snd p)"
        using c' [OF p0] self True by simp
      then show ?thesis using c0 [OF p] True by simp
    next
      case False
      then have "(fst p, snd p) \<noteq> (px, py)" by (simp add: prod_eq_iff)
      then have e: "cell_xy ?b0 (fst p) (snd p) = cell_xy board (fst p) (snd p)"
        using c0 [OF p] by auto
      show ?thesis using c' [OF p0] False unfolding e by auto
    qed
  qed
  ultimately show ?thesis by blast
qed

section \<open>init_board: the loop\<close>

lemma position_of_index:
  assumes "board_ok board" "0 \<le> pos" "pos < width board * height board"
  shows "in_bounds board (pos mod width board) (pos div width board)"
    "pos div width board * width board + pos mod width board = pos"
    "pos smod width board = pos mod width board"
    "pos sdiv width board = pos div width board"
    "cell_xy board (pos mod width board) (pos div width board) = cells board ! nat pos"
proof -
  from assms(1) have w: "0 < width board" by (simp add: board_ok_def)
  have "pos div width board < height board"
  proof (rule ccontr)
    assume "\<not> pos div width board < height board"
    then have "height board * width board \<le> pos div width board * width board"
      using w by (intro mult_right_mono) simp_all
    also have "\<dots> = pos - pos mod width board"
      by (simp add: minus_mod_eq_div_mult)
    also have "\<dots> \<le> pos" using w by simp
    finally show False using assms(3) by (simp add: mult.commute)
  qed
  moreover have "0 \<le> pos div width board" using assms(2) w by (simp add: pos_imp_zdiv_nonneg_iff)
  ultimately show "in_bounds board (pos mod width board) (pos div width board)"
    using w by (simp add: in_bounds_def)
  show e: "pos div width board * width board + pos mod width board = pos" by simp
  show "pos smod width board = pos mod width board" "pos sdiv width board = pos div width board"
    using sdiv_smod_nonneg [OF assms(2) w] by simp_all
  show "cell_xy board (pos mod width board) (pos div width board) = cells board ! nat pos"
    by (simp add: cell_xy_def cell_ref_def)
qed

lemma place_mines_rule:
  assumes "board_ok b" "\<forall>d \<in> set ds. 0 \<le> d \<and> d < width b * height b" "I b k"
    and step: "\<And>s j px py s'. I s j \<Longrightarrow> board_ok s \<Longrightarrow> same_but_cells b s \<Longrightarrow> j < num_mines s \<Longrightarrow>
                 in_bounds s px py \<Longrightarrow> py * width s + px \<noteq> blocked \<Longrightarrow>
                 \<not> is_mine (cell_xy s px py) \<Longrightarrow> mine_laid s px py s' \<Longrightarrow> I s' (j + 1)"
  shows "case place_mines ds b k blocked of
           Inr b' \<Rightarrow> same_but_cells b b' \<and> (\<exists>j. I b' j \<and> \<not> j < num_mines b')
         | Inl e \<Rightarrow> e = OutOfFuel"
  using assms
proof (induction ds arbitrary: b k)
  case Nil
  then show ?case by (auto simp: same_but_cells_refl)
next
  case (Cons pos ds)
  let ?w = "width b"
  have dr: "\<forall>d \<in> set ds. 0 \<le> d \<and> d < width b * height b" using Cons.prems(2) by simp
  have again: "case place_mines ds b k blocked of
           Inr b' \<Rightarrow> same_but_cells b b' \<and> (\<exists>j. I b' j \<and> \<not> j < num_mines b')
         | Inl e \<Rightarrow> e = OutOfFuel"
    by (rule Cons.IH [OF Cons.prems(1) dr Cons.prems(3)]) (rule Cons.prems(4))
  show ?case
  proof (cases "k < num_mines b")
    case False
    with Cons.prems(3) show ?thesis by (auto simp: same_but_cells_refl)
  next
    case k: True
    show ?thesis
    proof (cases "pos = blocked")
      case True
      with k again show ?thesis by simp
    next
      case nb: False
      from Cons.prems(2) have pr: "0 \<le> pos" "pos < width b * height b" by simp_all
      note pc = position_of_index [OF Cons.prems(1) pr]
      have ca: "cell_at b pos = Inr (cells b ! nat pos)"
        using pr Cons.prems(1) by (simp add: cell_at_def board_ok_def)
      show ?thesis
      proof (cases "is_mine (cells b ! nat pos)")
        case True
        with k nb ca again show ?thesis by simp
      next
        case nm: False
        from lay_mine [OF Cons.prems(1) pc(1)] obtain b1 where
          b1: "for_each_neighbour
                 (set_cell b pos ((cells b ! nat pos)\<lparr>is_mine := True, neighbor_mines := 0\<rparr>))
                 (pos mod ?w) (pos div ?w) init_board_visit = Inr b1"
          and ml: "mine_laid b (pos mod ?w) (pos div ?w) b1"
          by (auto simp: pc)
        from ml have sb: "same_but_cells b b1" by (simp add: mine_laid_def)
        note f1 = same_but_cells_fields [OF sb]
        have ok1: "board_ok b1" using sb Cons.prems(1) by (rule same_but_cells_board_ok)
        have dr1: "\<forall>d \<in> set ds. 0 \<le> d \<and> d < width b1 * height b1" using dr f1 by simp
        have I1: "I b1 (k + 1)"
          using Cons.prems(4) [OF Cons.prems(3,1) same_but_cells_refl k pc(1) _ _ ml] nb nm pc
          by simp
        have "case place_mines ds b1 (k + 1) blocked of
                Inr b' \<Rightarrow> same_but_cells b1 b' \<and> (\<exists>j. I b' j \<and> \<not> j < num_mines b')
              | Inl e \<Rightarrow> e = OutOfFuel"
        proof (rule Cons.IH [OF ok1 dr1 I1])
          fix s j px py s'
          assume "I s j" "board_ok s" "same_but_cells b1 s" "j < num_mines s" "in_bounds s px py"
            "py * width s + px \<noteq> blocked" "\<not> is_mine (cell_xy s px py)" "mine_laid s px py s'"
          then show "I s' (j + 1)"
            using Cons.prems(4) [of s j px py s'] same_but_cells_trans [OF sb] by blast
        qed
        then have "case place_mines ds b1 (k + 1) blocked of
                Inr b' \<Rightarrow> same_but_cells b b' \<and> (\<exists>j. I b' j \<and> \<not> j < num_mines b')
              | Inl e \<Rightarrow> e = OutOfFuel"
          using same_but_cells_trans [OF sb]
          by (cases "place_mines ds b1 (k + 1) blocked") auto
        moreover have "width b \<noteq> 0" using Cons.prems(1) by (simp add: board_ok_def)
        ultimately show ?thesis using k nb nm ca b1 by (simp add: Let_def pc)
      qed
    qed
  qed
qed

lemma place_mines_lay:
  assumes "board_ok b" "0 \<le> pos" "pos < width b * height b" "k < num_mines b"
    "pos \<noteq> blocked" "\<not> is_mine (cells b ! nat pos)"
  shows "\<exists>b1. mine_laid b (pos mod width b) (pos div width b) b1
              \<and> place_mines (pos # ds) b k blocked = place_mines ds b1 (k + 1) blocked"
proof -
  note pc = position_of_index [OF assms(1,2,3)]
  have ca: "cell_at b pos = Inr (cells b ! nat pos)"
    using assms(1,2,3) by (simp add: cell_at_def board_ok_def)
  from lay_mine [OF assms(1) pc(1)] obtain b1 where
    b1: "for_each_neighbour
           (set_cell b pos ((cells b ! nat pos)\<lparr>is_mine := True, neighbor_mines := 0\<rparr>))
           (pos mod width b) (pos div width b) init_board_visit = Inr b1"
    and ml: "mine_laid b (pos mod width b) (pos div width b) b1"
    by (auto simp: pc)
  have "width b \<noteq> 0" using assms(1) by (simp add: board_ok_def)
  then have "place_mines (pos # ds) b k blocked = place_mines ds b1 (k + 1) blocked"
    using assms(4,5,6) ca b1 by (simp add: Let_def pc)
  with ml show ?thesis by blast
qed

lemma place_mines_skip:
  assumes "board_ok b" "0 \<le> pos" "pos < width b * height b"
    "pos = blocked \<or> is_mine (cells b ! nat pos)"
  shows "place_mines (pos # ds) b k blocked = place_mines ds b k blocked"
proof -
  have ca: "cell_at b pos = Inr (cells b ! nat pos)"
    using assms(1,2,3) by (simp add: cell_at_def board_ok_def)
  show ?thesis
  proof (cases "k < num_mines b")
    case True
    with assms(4) ca show ?thesis by auto
  next
    case False
    then show ?thesis by (cases ds) simp_all
  qed
qed

section \<open>init_board: what a laid mine changes\<close>

lemma mine_laid_cell:
  assumes "mine_laid b px py b'" "in_bounds b u v"
  shows "is_mine (cell_xy b' u v) = ((u, v) = (px, py) \<or> is_mine (cell_xy b u v))"
    "is_revealed (cell_xy b' u v) = is_revealed (cell_xy b u v)"
    "is_flagged (cell_xy b' u v) = is_flagged (cell_xy b u v)"
proof -
  from assms have c: "cell_xy b' u v =
              (if (u, v) = (px, py) then (cell_xy b px py)\<lparr>is_mine := True, neighbor_mines := 0\<rparr>
               else if (u, v) \<in> set (neighbours (width b) (height b) px py)
                       \<and> \<not> is_mine (cell_xy b u v)
               then (cell_xy b u v)\<lparr>neighbor_mines := neighbor_mines (cell_xy b u v) + 1\<rparr>
               else cell_xy b u v)"
    unfolding mine_laid_def by (metis fst_conv snd_conv in_positions)
  show "is_mine (cell_xy b' u v) = ((u, v) = (px, py) \<or> is_mine (cell_xy b u v))"
    unfolding c by auto
  show "is_revealed (cell_xy b' u v) = is_revealed (cell_xy b u v)"
    unfolding c by auto
  show "is_flagged (cell_xy b' u v) = is_flagged (cell_xy b u v)"
    unfolding c by auto
qed

lemma cell_of_index:
  assumes "board_ok b" "j < length (cells b)"
  shows "in_bounds b (int j mod width b) (int j div width b)"
    "cells b ! j = cell_xy b (int j mod width b) (int j div width b)"
proof -
  from assms have r: "0 \<le> int j" "int j < width b * height b" by (simp_all add: board_ok_def)
  from position_of_index [OF assms(1) r]
  show "in_bounds b (int j mod width b) (int j div width b)"
    "cells b ! j = cell_xy b (int j mod width b) (int j div width b)"
    by simp_all
qed

lemma mine_laid_indices:
  assumes "board_ok b" "in_bounds b px py" "mine_laid b px py b'"
  shows "mine_indices b' = insert (nat (py * width b + px)) (mine_indices b)"
proof -
  from assms(3) have sb: "same_but_cells b b'" by (simp add: mine_laid_def)
  note f = same_but_cells_fields [OF sb]
  have ok': "board_ok b'" using sb assms(1) by (rule same_but_cells_board_ok)
  note i = index_in_range [OF assms(1,2)]
  from assms(1,2) have w: "0 < width b" "0 \<le> px" "px < width b"
    by (simp_all add: board_ok_def in_bounds_def)
  have "\<And>j. j < length (cells b) \<Longrightarrow>
          is_mine (cells b' ! j) = (j = nat (py * width b + px) \<or> is_mine (cells b ! j))"
  proof -
    fix j assume j: "j < length (cells b)"
    let ?u = "int j mod width b" and ?v = "int j div width b"
    note cj = cell_of_index [OF assms(1) j]
    have cj': "cells b' ! j = cell_xy b' ?u ?v"
      using cell_of_index(2) [OF ok', of j] j f by simp
    have "(?u, ?v) = (px, py) \<longleftrightarrow> j = nat (py * width b + px)"
    proof
      assume "(?u, ?v) = (px, py)"
      then have "py * width b + px = ?v * width b + ?u" by simp
      also have "\<dots> = int j" by simp
      finally show "j = nat (py * width b + px)" by simp
    next
      assume "j = nat (py * width b + px)"
      then have "int j = py * width b + px" using i(1) by simp
      then show "(?u, ?v) = (px, py)" using index_div_mod [OF w, of py] by simp
    qed
    then show "is_mine (cells b' ! j) = (j = nat (py * width b + px) \<or> is_mine (cells b ! j))"
      using mine_laid_cell(1) [OF assms(3) cj(1)] cj(2) cj' by simp
  qed
  moreover have "nat (py * width b + px) < length (cells b)" using i by simp
  ultimately show ?thesis using f(8) by (auto simp: mine_indices_def)
qed

lemma mine_count_card: "mine_count b = int (card (mine_indices b))"
  by (simp add: mine_count_def mine_indices_def length_filter_conv_card)

lemma finite_mine_indices [simp]: "finite (mine_indices b)"
  by (simp add: mine_indices_def)

lemma mine_laid_count:
  assumes "board_ok b" "in_bounds b px py" "\<not> is_mine (cell_xy b px py)" "mine_laid b px py b'"
  shows "mine_count b' = mine_count b + 1"
proof -
  have "nat (py * width b + px) \<notin> mine_indices b"
    using assms(3) by (simp add: mine_indices_def cell_xy_def cell_ref_def)
  then show ?thesis
    using mine_laid_indices [OF assms(1,2,4)] by (simp add: mine_count_card)
qed

section \<open>init_board: termination\<close>

text \<open>
  The loop ends when the draws still to come hold enough distinct positions that are
  neither blocked nor mined.
\<close>

lemma place_mines_total:
  assumes "board_ok b" "\<forall>d \<in> set ds. 0 \<le> d \<and> d < width b * height b"
    "nat (num_mines b - k) \<le> card (set ds - {blocked} - int ` mine_indices b)"
  shows "\<exists>b'. place_mines ds b k blocked = Inr b'"
  using assms
proof (induction ds arbitrary: b k)
  case Nil
  then show ?case by simp
next
  case (Cons pos ds)
  from Cons.prems(2) have pr: "0 \<le> pos" "pos < width b * height b"
    and dr: "\<forall>d \<in> set ds. 0 \<le> d \<and> d < width b * height b" by simp_all
  have len: "int (length (cells b)) = width b * height b"
    using Cons.prems(1) by (simp add: board_ok_def)
  show ?case
  proof (cases "k < num_mines b")
    case False
    then show ?thesis by simp
  next
    case k: True
    show ?thesis
    proof (cases "pos = blocked \<or> is_mine (cells b ! nat pos)")
      case True
      then have "pos \<in> {blocked} \<union> int ` mine_indices b"
      proof
        assume "pos = blocked" then show ?thesis by simp
      next
        assume "is_mine (cells b ! nat pos)"
        then have "nat pos \<in> mine_indices b" using pr len by (simp add: mine_indices_def)
        then have "int (nat pos) \<in> int ` mine_indices b" by (rule imageI)
        then show ?thesis using pr by simp
      qed
      then have "set (pos # ds) - {blocked} - int ` mine_indices b
                   = set ds - {blocked} - int ` mine_indices b" by auto
      with Cons.prems(3) have "nat (num_mines b - k) \<le> card (set ds - {blocked} - int ` mine_indices b)"
        by simp
      from Cons.IH [OF Cons.prems(1) dr this] show ?thesis
        using place_mines_skip [OF Cons.prems(1) pr True] by simp
    next
      case False
      then have nb: "pos \<noteq> blocked" and nm: "\<not> is_mine (cells b ! nat pos)" by simp_all
      from place_mines_lay [OF Cons.prems(1) pr k nb nm] obtain b1 where
        ml: "mine_laid b (pos mod width b) (pos div width b) b1"
        and eq: "place_mines (pos # ds) b k blocked = place_mines ds b1 (k + 1) blocked"
        by blast
      note pc = position_of_index [OF Cons.prems(1) pr]
      from ml have sb: "same_but_cells b b1" by (simp add: mine_laid_def)
      note f1 = same_but_cells_fields [OF sb]
      have ok1: "board_ok b1" using sb Cons.prems(1) by (rule same_but_cells_board_ok)
      have dr1: "\<forall>d \<in> set ds. 0 \<le> d \<and> d < width b1 * height b1" using dr f1 by simp
      have mi: "mine_indices b1 = insert (nat pos) (mine_indices b)"
        using mine_laid_indices [OF Cons.prems(1) pc(1) ml] pc(2) by simp
      let ?S = "set (pos # ds) - {blocked} - int ` mine_indices b"
      have "?S - {pos} \<subseteq> set ds - {blocked} - int ` mine_indices b1"
        using mi pr by auto
      then have "card (?S - {pos}) \<le> card (set ds - {blocked} - int ` mine_indices b1)"
        by (intro card_mono) simp_all
      moreover have "card ?S - 1 \<le> card (?S - {pos})"
        by (simp add: card_Diff_singleton_if)
      ultimately have "nat (num_mines b1 - (k + 1))
                         \<le> card (set ds - {blocked} - int ` mine_indices b1)"
        using Cons.prems(3) f1(3) by simp
      from Cons.IH [OF ok1 dr1 this] eq show ?thesis by simp
    qed
  qed
qed

section \<open>init_board: the counters\<close>

lemma length_filter_one_more:
  assumes "distinct xs" "\<not> P a"
  shows "length (filter (\<lambda>q. q = a \<or> P q) xs) = length (filter P xs) + (if a \<in> set xs then 1 else 0)"
  using assms by (induction xs) auto

lemma mine_laid_adjacent_mines:
  assumes "board_ok b" "in_bounds b px py" "\<not> is_mine (cell_xy b px py)" "mine_laid b px py b'"
    "in_bounds b u v"
  shows "adjacent_mines b' u v =
           adjacent_mines b u v
           + (if (u, v) \<in> set (neighbours (width b) (height b) px py) then 1 else 0)"
proof -
  from assms(4) have sb: "same_but_cells b b'" by (simp add: mine_laid_def)
  note f = same_but_cells_fields [OF sb]
  let ?ns = "neighbours (width b) (height b) u v"
  have "filter (\<lambda>p. is_mine (cell_xy b' (fst p) (snd p))) ?ns
          = filter (\<lambda>p. p = (px, py) \<or> is_mine (cell_xy b (fst p) (snd p))) ?ns"
  proof (rule filter_cong [OF refl])
    fix p assume "p \<in> set ?ns"
    then have "in_bounds b (fst p) (snd p)" by (rule neighbours_in_bounds [OF assms(5)])
    from mine_laid_cell(1) [OF assms(4) this]
    show "is_mine (cell_xy b' (fst p) (snd p)) = (p = (px, py) \<or> is_mine (cell_xy b (fst p) (snd p)))"
      by (simp add: prod_eq_iff)
  qed
  moreover have "length (filter (\<lambda>p. p = (px, py) \<or> is_mine (cell_xy b (fst p) (snd p))) ?ns)
          = length (filter (\<lambda>p. is_mine (cell_xy b (fst p) (snd p))) ?ns)
            + (if (px, py) \<in> set ?ns then 1 else 0)"
    by (rule length_filter_one_more [OF distinct_neighbours]) (simp add: assms(3))
  moreover have "(px, py) \<in> set ?ns \<longleftrightarrow> (u, v) \<in> set (neighbours (width b) (height b) px py)"
    by (rule neighbours_sym [OF assms(5,2)])
  ultimately show ?thesis by (simp add: adjacent_mines_def f)
qed

lemma counts_consistent_iff:
  "counts_consistent b \<longleftrightarrow>
     (\<forall>u v. in_bounds b u v \<longrightarrow>
        neighbor_mines (cell_xy b u v) =
          (if is_mine (cell_xy b u v) then 0 else word_of_int (adjacent_mines b u v)))"
  by (auto simp: counts_consistent_def set_positions)

lemma mine_laid_counts_consistent:
  assumes "board_ok b" "in_bounds b px py" "\<not> is_mine (cell_xy b px py)" "mine_laid b px py b'"
    "counts_consistent b"
  shows "counts_consistent b'"
  unfolding counts_consistent_iff
proof (intro allI impI)
  fix u v assume "in_bounds b' u v"
  from assms(4) have sb: "same_but_cells b b'" by (simp add: mine_laid_def)
  with \<open>in_bounds b' u v\<close> have uv: "in_bounds b u v" by (simp add: same_but_cells_in_bounds)
  note f = same_but_cells_fields [OF sb]
  let ?ns = "neighbours (width b) (height b) px py"
  from assms(4) uv have c: "cell_xy b' u v =
              (if (u, v) = (px, py) then (cell_xy b px py)\<lparr>is_mine := True, neighbor_mines := 0\<rparr>
               else if (u, v) \<in> set ?ns \<and> \<not> is_mine (cell_xy b u v)
               then (cell_xy b u v)\<lparr>neighbor_mines := neighbor_mines (cell_xy b u v) + 1\<rparr>
               else cell_xy b u v)"
    unfolding mine_laid_def by (metis fst_conv snd_conv in_positions)
  from assms(5) uv have old: "neighbor_mines (cell_xy b u v) =
          (if is_mine (cell_xy b u v) then 0 else word_of_int (adjacent_mines b u v))"
    by (simp add: counts_consistent_iff)
  note adj = mine_laid_adjacent_mines [OF assms(1,2,3,4) uv]
  show "neighbor_mines (cell_xy b' u v) =
          (if is_mine (cell_xy b' u v) then 0 else word_of_int (adjacent_mines b' u v))"
  proof (cases "(u, v) = (px, py)")
    case True
    then show ?thesis unfolding c by simp
  next
    case False
    show ?thesis
    proof (cases "is_mine (cell_xy b u v)")
      case True
      with False old show ?thesis unfolding c by simp
    next
      case nm: False
      show ?thesis
      proof (cases "(u, v) \<in> set ?ns")
        case True
        with False nm old adj show ?thesis unfolding c by simp
      next
        case False2: False
        with False nm old adj show ?thesis unfolding c by simp
      qed
    qed
  qed
qed

section \<open>init_board: the board it returns\<close>

lemma no_mine_cell:
  assumes "board_ok b" "mine_count b = 0" "in_bounds b x y"
  shows "\<not> is_mine (cell_xy b x y)"
proof -
  from assms(2) have "mine_indices b = {}" by (simp add: mine_count_card)
  moreover have "nat (y * width b + x) < length (cells b)"
    using index_in_range [OF assms(1,3)] by simp
  ultimately show ?thesis by (auto simp: mine_indices_def cell_xy_def cell_ref_def)
qed

lemma init_board_result:
  assumes ok: "board_ok b" and none: "mine_count b = 0" and xy: "in_bounds b x y"
    and dr: "\<forall>d \<in> set ds. 0 \<le> d \<and> d < width b * height b"
  shows "case init_board ds b x y of
           Inr b' \<Rightarrow>
             same_but_cells b b'
             \<and> \<not> is_mine (cell_xy b' x y)
             \<and> (0 \<le> num_mines b \<longrightarrow> mine_count b' = num_mines b)
             \<and> (counts_consistent b \<longrightarrow> counts_consistent b')
             \<and> (\<forall>u v. in_bounds b u v \<longrightarrow>
                   is_revealed (cell_xy b' u v) = is_revealed (cell_xy b u v)
                   \<and> is_flagged (cell_xy b' u v) = is_flagged (cell_xy b u v))
         | Inl e \<Rightarrow> e = OutOfFuel"
proof -
  define I where "I = (\<lambda>(s::board) (j::int).
      mine_count s = j \<and> (0 \<le> num_mines b \<longrightarrow> j \<le> num_mines b)
      \<and> \<not> is_mine (cell_xy s x y)
      \<and> (counts_consistent b \<longrightarrow> counts_consistent s)
      \<and> (\<forall>u v. in_bounds b u v \<longrightarrow>
                   is_revealed (cell_xy s u v) = is_revealed (cell_xy b u v)
                   \<and> is_flagged (cell_xy s u v) = is_flagged (cell_xy b u v)))"
  have I0: "I b 0" using no_mine_cell [OF ok none xy] none by (simp add: I_def)
  have "case place_mines ds b 0 (y * width b + x) of
           Inr b' \<Rightarrow> same_but_cells b b' \<and> (\<exists>j. I b' j \<and> \<not> j < num_mines b')
         | Inl e \<Rightarrow> e = OutOfFuel"
  proof (rule place_mines_rule [where I = I, OF ok dr I0])
    fix s j px py s'
    assume Is: "I s j" and oks: "board_ok s" and sb: "same_but_cells b s"
      and j: "j < num_mines s" and p: "in_bounds s px py"
      and nb: "py * width s + px \<noteq> y * width b + x"
      and nm: "\<not> is_mine (cell_xy s px py)" and ml: "mine_laid s px py s'"
    note f = same_but_cells_fields [OF sb]
    have xys: "in_bounds s x y" using xy same_but_cells_in_bounds [OF sb] by simp
    have ne: "(x, y) \<noteq> (px, py)" using nb f by auto
    have "mine_count s' = j + 1"
      using mine_laid_count [OF oks p nm ml] Is by (simp add: I_def)
    moreover have "0 \<le> num_mines b \<longrightarrow> j + 1 \<le> num_mines b" using j f by simp
    moreover have "\<not> is_mine (cell_xy s' x y)"
      using mine_laid_cell(1) [OF ml xys] ne Is by (simp add: I_def)
    moreover have "counts_consistent b \<longrightarrow> counts_consistent s'"
      using mine_laid_counts_consistent [OF oks p nm ml] Is by (simp add: I_def)
    moreover have "\<forall>u v. in_bounds b u v \<longrightarrow>
                   is_revealed (cell_xy s' u v) = is_revealed (cell_xy b u v)
                   \<and> is_flagged (cell_xy s' u v) = is_flagged (cell_xy b u v)"
    proof (intro allI impI)
      fix u v assume "in_bounds b u v"
      then have uv: "in_bounds s u v" using same_but_cells_in_bounds [OF sb] by simp
      from Is \<open>in_bounds b u v\<close>
      have "is_revealed (cell_xy s u v) = is_revealed (cell_xy b u v)
            \<and> is_flagged (cell_xy s u v) = is_flagged (cell_xy b u v)"
        by (simp add: I_def)
      then show "is_revealed (cell_xy s' u v) = is_revealed (cell_xy b u v)
                   \<and> is_flagged (cell_xy s' u v) = is_flagged (cell_xy b u v)"
        using mine_laid_cell(2,3) [OF ml uv] by simp
    qed
    ultimately show "I s' (j + 1)" by (simp add: I_def)
  qed
  then show ?thesis
  proof (cases "place_mines ds b 0 (y * width b + x)")
    case (Inl e)
    then show "case place_mines ds b 0 (y * width b + x) of
           Inr b' \<Rightarrow> same_but_cells b b' \<and> (\<exists>j. I b' j \<and> \<not> j < num_mines b')
         | Inl e \<Rightarrow> e = OutOfFuel \<Longrightarrow> ?thesis"
      by (simp add: init_board_def)
  next
    case (Inr b')
    assume "case place_mines ds b 0 (y * width b + x) of
           Inr b' \<Rightarrow> same_but_cells b b' \<and> (\<exists>j. I b' j \<and> \<not> j < num_mines b')
         | Inl e \<Rightarrow> e = OutOfFuel"
    with Inr obtain j where sb: "same_but_cells b b'" and Ij: "I b' j" and j: "\<not> j < num_mines b'"
      by auto
    from j same_but_cells_fields(3) [OF sb] have "num_mines b \<le> j" by simp
    with Ij sb Inr show ?thesis by (simp add: init_board_def I_def)
  qed
qed

lemma init_board_total:
  assumes "board_ok b" "mine_count b = 0"
    "\<forall>d \<in> set ds. 0 \<le> d \<and> d < width b * height b"
    "num_mines b \<le> int (card (set ds - {y * width b + x}))"
  shows "\<exists>b'. init_board ds b x y = Inr b'"
proof -
  from assms(2) have "mine_indices b = {}" by (simp add: mine_count_card)
  with assms(4) have "nat (num_mines b - 0)
      \<le> card (set ds - {y * width b + x} - int ` mine_indices b)" by simp
  from place_mines_total [OF assms(1,3) this] show ?thesis by (simp add: init_board_def)
qed

text \<open>
  C2. On a board without mines, whatever the random engine draws within
  \<open>0 .. width * height - 1\<close>, the board that \<open>init_board\<close> returns for the position
  \<open>(x, y)\<close> of the first reveal has no mine at \<open>(x, y)\<close>; and \<open>init_board\<close> does return
  when the draws hold \<open>num_mines\<close> distinct positions other than that one (which needs
  \<open>num_mines < width * height\<close>).
\<close>

theorem first_reveal_cell_is_no_mine:
  assumes "board_ok b" "mine_count b = 0" "in_bounds b x y"
    "\<forall>d \<in> set ds. 0 \<le> d \<and> d < width b * height b"
  shows "(\<forall>b'. init_board ds b x y = Inr b' \<longrightarrow> \<not> is_mine (cell_xy b' x y))
       \<and> (num_mines b \<le> int (card (set ds - {y * width b + x}))
            \<longrightarrow> (\<exists>b'. init_board ds b x y = Inr b'))"
  using init_board_result [OF assms] init_board_total [OF assms(1,2,4)]
  by (auto split: sum.splits)

theorem first_reveal_cell_is_no_mine_witness:
  "\<exists>b'. init_board [4, 0, 4, 7] (fresh_board 3 3 2) 0 0 = Inr b' \<and> \<not> is_mine (cell_xy b' 0 0)"
proof -
  have h: "board_ok (fresh_board 3 3 2)" "mine_count (fresh_board 3 3 2) = 0"
    "in_bounds (fresh_board 3 3 2) 0 0"
    "\<forall>d \<in> set [4, 0, 4, 7]. 0 \<le> d \<and> d < width (fresh_board 3 3 2) * height (fresh_board 3 3 2)"
    by (simp_all add: fresh_board_def board_ok_def mine_count_def in_bounds_def blank_cell_def)
  have c: "num_mines (fresh_board 3 3 2)
             \<le> int (card (set [4, 0, 4, 7] - {0 * width (fresh_board 3 3 2) + 0}))"
  proof -
    have "set [4, 0, 4, 7] - {0 * width (fresh_board 3 3 2) + 0} = {4, 7::int}" by auto
    then show ?thesis by (simp add: fresh_board_def)
  qed
  from first_reveal_cell_is_no_mine [OF h] c show ?thesis by blast
qed

section \<open>The Reveal command\<close>

lemma visit_neighbours_evolving:
  fixes b :: "'a board_scheme"
  assumes "board_ok b" "in_bounds b x y" "evolves b b1"
    and step: "\<And>s p. evolves b1 s \<Longrightarrow> board_ok s \<Longrightarrow> in_bounds s (fst p) (snd p) \<Longrightarrow>
             (case f s (fst p) (snd p) of Inr s' \<Rightarrow> evolves s s' | Inl e \<Rightarrow> e \<in> E)"
  shows "case visit_all f (neighbours (width b) (height b) x y) b1 of
           Inr b' \<Rightarrow> evolves b1 b' | Inl e \<Rightarrow> e \<in> E"
proof (rule visit_all_inv [where I = "evolves b1"])
  show "evolves b1 b1" by (rule evolves_refl)
next
  fix s :: "'a board_scheme" and p
  assume s: "evolves b1 s" and p: "p \<in> set (neighbours (width b) (height b) x y)"
  have es: "evolves b s" using assms(3) s by (rule evolves_trans)
  have "board_ok s" using es assms(1) by (rule evolves_board_ok)
  moreover have "in_bounds s (fst p) (snd p)"
    using neighbours_in_bounds [OF assms(2) p] evolves_in_bounds [OF es] by simp
  ultimately have "case f s (fst p) (snd p) of Inr s' \<Rightarrow> evolves s s' | Inl e \<Rightarrow> e \<in> E"
    by (rule step [OF s])
  then show "case f s (fst p) (snd p) of Inr s' \<Rightarrow> evolves b1 s' | Inl e \<Rightarrow> e \<in> E"
    using evolves_trans [OF s] by (cases "f s (fst p) (snd p)") simp_all
qed

lemma chord_visit_evolves: "chord_visit n s x y = Inr s' \<Longrightarrow> evolves s s'"
  by (auto simp: chord_visit_def and_then_eq_Inr evolves_refl reveal_evolves split: if_splits)

lemma chord_visit_safe:
  assumes "board_ok s" "in_bounds s x y"
  shows "case chord_visit n s x y of Inr s' \<Rightarrow> evolves s s' | Inl e \<Rightarrow> e \<in> {OutOfFuel}"
  using reveal_safe [OF assms, of n]
  by (simp add: chord_visit_def cell_at_in_range [OF assms] evolves_refl)

lemma chord_visit_total:
  assumes "board_ok s" "in_bounds s x y" "unrevealed_count s < n"
  shows "case chord_visit n s x y of Inr s' \<Rightarrow> evolves s s' | Inl e \<Rightarrow> e \<in> {}"
proof (cases "is_mine (cell_xy s x y)")
  case True
  then show ?thesis by (simp add: chord_visit_def cell_at_in_range [OF assms(1,2)] evolves_refl)
next
  case False
  from reveal_total [OF assms] obtain s' where s': "reveal n s x y = Inr s'" by blast
  with reveal_evolves [OF s'] False show ?thesis
    by (simp add: chord_visit_def cell_at_in_range [OF assms(1,2)])
qed

lemma chord_pass:
  assumes "board_ok b" "in_bounds b x y"
  shows "for_each_neighbour b x y (chord_visit n)
           = visit_all (chord_visit n) (neighbours (width b) (height b) x y) b"
    "case visit_all (chord_visit n) (neighbours (width b) (height b) x y) b of
       Inr b' \<Rightarrow> evolves b b' | Inl e \<Rightarrow> e \<in> {OutOfFuel}"
    "length (cells b) < n \<Longrightarrow>
       \<exists>b'. visit_all (chord_visit n) (neighbours (width b) (height b) x y) b = Inr b'"
proof -
  show "for_each_neighbour b x y (chord_visit n)
           = visit_all (chord_visit n) (neighbours (width b) (height b) x y) b"
    by (rule for_each_neighbour_visit_all) (simp add: chord_visit_evolves evolves_fields)
  show "case visit_all (chord_visit n) (neighbours (width b) (height b) x y) b of
       Inr b' \<Rightarrow> evolves b b' | Inl e \<Rightarrow> e \<in> {OutOfFuel}"
    by (rule visit_neighbours_evolving [OF assms evolves_refl]) (rule chord_visit_safe)
  assume n: "length (cells b) < n"
  have "case visit_all (chord_visit n) (neighbours (width b) (height b) x y) b of
       Inr b' \<Rightarrow> evolves b b' | Inl e \<Rightarrow> e \<in> {}"
  proof (rule visit_neighbours_evolving [OF assms evolves_refl])
    fix s p assume s: "evolves b s" "board_ok s" "in_bounds s (fst p) (snd p)"
    have "unrevealed_count s < n"
      using evolves_unrevealed_count [OF s(1)] unrevealed_count_le [of b] n by simp
    with s(2,3) show "case chord_visit n s (fst p) (snd p) of
                        Inr s' \<Rightarrow> evolves s s' | Inl e \<Rightarrow> e \<in> {}"
      by (rule chord_visit_total)
  qed
  then show "\<exists>b'. visit_all (chord_visit n) (neighbours (width b) (height b) x y) b = Inr b'"
    by (cases "visit_all (chord_visit n) (neighbours (width b) (height b) x y) b") simp_all
qed

text \<open>Counting the flagged neighbours.\<close>

lemma count_flag_dims:
  "count_flag s x y = Inr s' \<Longrightarrow> width s' = width s \<and> height s' = height s"
  by (auto simp: count_flag_def and_then_eq_Inr split: if_splits)

lemma visit_all_count_flag:
  assumes "board_ok s" "\<forall>p \<in> set ps. in_bounds s (fst p) (snd p)"
  shows "visit_all count_flag ps s =
           Inr (s\<lparr>flags := flags s
                    + int (length (filter (\<lambda>p. is_flagged (cell_xy s (fst p) (snd p))) ps))\<rparr>)"
  using assms
proof (induction ps arbitrary: s)
  case Nil
  then show ?case by simp
next
  case (Cons p ps)
  from Cons.prems have p: "in_bounds s (fst p) (snd p)" by simp
  let ?s1 = "if is_flagged (cell_xy s (fst p) (snd p)) then s\<lparr>flags := flags s + 1\<rparr> else s"
  have v: "count_flag s (fst p) (snd p) = Inr ?s1"
    by (simp add: count_flag_def cell_at_in_range [OF Cons.prems(1) p])
  have ok1: "board_ok ?s1" using Cons.prems(1) by (simp add: board_ok_def)
  have in1: "\<forall>q \<in> set ps. in_bounds ?s1 (fst q) (snd q)"
    using Cons.prems(2) by (simp add: in_bounds_def)
  have c: "\<And>u v. cell_xy ?s1 u v = cell_xy s u v" by (simp add: cell_xy_def cell_ref_def)
  show ?case using Cons.IH [OF ok1 in1] v by (simp add: c)
qed

lemma count_flags:
  assumes "board_ok b" "in_bounds b x y"
  shows "for_each_neighbour (board.extend b \<lparr>flags = 0\<rparr>) x y count_flag
           = Inr (board.extend b \<lparr>flags = flagged_neighbours b x y\<rparr>)"
proof -
  let ?s = "board.extend b \<lparr>flags = 0\<rparr>"
  have f: "width ?s = width b" "height ?s = height b" "cells ?s = cells b" "flags ?s = 0"
    by (simp_all add: board.defs)
  have ok: "board_ok ?s" using assms(1) by (simp add: board_ok_def f)
  have xy: "in_bounds ?s x y" using assms(2) by (simp add: in_bounds_def f)
  have c: "\<And>u v. cell_xy ?s u v = cell_xy b u v" by (simp add: cell_xy_def cell_ref_def f)
  have "for_each_neighbour ?s x y count_flag
          = visit_all count_flag (neighbours (width ?s) (height ?s) x y) ?s"
    by (rule for_each_neighbour_visit_all) (rule count_flag_dims)
  also have "\<dots> = Inr (?s\<lparr>flags := flags ?s
                    + int (length (filter (\<lambda>p. is_flagged (cell_xy ?s (fst p) (snd p)))
                                     (neighbours (width ?s) (height ?s) x y)))\<rparr>)"
    by (rule visit_all_count_flag [OF ok]) (simp add: neighbours_in_bounds [OF xy])
  also have "\<dots> = Inr (board.extend b \<lparr>flags = flagged_neighbours b x y\<rparr>)"
    by (simp add: flagged_neighbours_def c f) (simp add: board.defs)
  finally show ?thesis .
qed

text \<open>The chord, once the counting is done.\<close>

lemma reveal_or_chord_chord:
  assumes "board_ok b" "in_bounds b x y"
    "is_revealed (cell_xy b x y)" "0 < sint (neighbor_mines (cell_xy b x y))"
  shows "reveal_or_chord n b x y =
           (if flagged_neighbours b x y \<noteq> sint (neighbor_mines (cell_xy b x y))
            then Inr ([''Incorrect number of flags''], b)
            else and_then (visit_all (chord_visit n) (neighbours (width b) (height b) x y) b)
                   (\<lambda>b'. Inr ([], b')))"
proof -
  have t: "\<And>k. board.truncate (board.extend b \<lparr>flags = k\<rparr>) = b"
    "\<And>k. flags (board.extend b \<lparr>flags = k\<rparr>) = k"
    by (simp_all add: board.defs)
  show ?thesis
    using assms(3,4)
    by (simp add: reveal_or_chord_def cell_at_in_range [OF assms(1,2)] count_flags [OF assms(1,2)]
          t chord_pass(1) [OF assms(1,2)] cell_xy_def [symmetric] Let_def)
qed

lemma reveal_or_chord_reveal:
  assumes "board_ok b" "in_bounds b x y" "\<not> is_revealed (cell_xy b x y)"
  shows "reveal_or_chord n b x y =
           and_then (reveal n b x y) (\<lambda>b'.
             Inr ([], if is_mine (cell_xy b x y) then b'\<lparr>game_over := True\<rparr> else b'))"
proof (cases "reveal n b x y")
  case (Inl e)
  with assms(3) show ?thesis
    by (simp add: reveal_or_chord_def cell_at_in_range [OF assms(1,2)])
next
  case (Inr b')
  note e = reveal_evolves [OF Inr]
  have "nat (y * width b + x) < length (cells b)" using index_in_range [OF assms(1,2)] by simp
  from evolves_cell [OF e this]
  have "is_mine (cell_xy b' x y) = is_mine (cell_xy b x y)"
    by (auto simp: cell_xy_def cell_ref_def evolves_fields [OF e] reveal_or_keep_def)
  with assms(3) Inr show ?thesis
    by (simp add: reveal_or_chord_def cell_at_in_range [OF assms(1,2)] cell_xy_def [symmetric])
qed

lemma reveal_or_chord_noop:
  assumes "board_ok b" "in_bounds b x y"
    "is_revealed (cell_xy b x y)" "\<not> 0 < sint (neighbor_mines (cell_xy b x y))"
  shows "reveal_or_chord n b x y = Inr ([], b)"
  using assms(3,4) by (simp add: reveal_or_chord_def cell_at_in_range [OF assms(1,2)])

lemma evolves_game_over:
  assumes "evolves b b'"
  shows "evolves b (b'\<lparr>game_over := game_over b\<rparr>)" "evolves b (b'\<lparr>game_over := True, game_over := game_over b\<rparr>)"
proof -
  have "b'\<lparr>game_over := game_over b'\<rparr> = b'" by simp
  then have "b'\<lparr>game_over := game_over b\<rparr> = b'"
    using evolves_fields(4) [OF assms] by simp
  with assms show "evolves b (b'\<lparr>game_over := game_over b\<rparr>)"
    "evolves b (b'\<lparr>game_over := True, game_over := game_over b\<rparr>)" by simp_all
qed

lemma reveal_or_chord_safe:
  assumes "board_ok b" "in_bounds b x y"
  shows "case reveal_or_chord n b x y of
           Inr r \<Rightarrow> evolves b ((snd r)\<lparr>game_over := game_over b\<rparr>)
         | Inl e \<Rightarrow> e = OutOfFuel"
proof (cases "is_revealed (cell_xy b x y)")
  case False
  from reveal_safe [OF assms, of n] show ?thesis
    unfolding reveal_or_chord_reveal [OF assms False]
    by (cases "reveal n b x y") (simp_all add: evolves_game_over)
next
  case True
  show ?thesis
  proof (cases "0 < sint (neighbor_mines (cell_xy b x y))")
    case False
    with True show ?thesis
      by (simp add: reveal_or_chord_noop [OF assms] evolves_refl evolves_game_over)
  next
    case pos: True
    from chord_pass(2) [OF assms, of n] show ?thesis
      unfolding reveal_or_chord_chord [OF assms True pos]
      by (cases "visit_all (chord_visit n) (neighbours (width b) (height b) x y) b")
         (simp_all add: evolves_refl evolves_game_over)
  qed
qed

lemma reveal_or_chord_total:
  assumes "board_ok b" "in_bounds b x y" "length (cells b) < n"
  shows "\<exists>r. reveal_or_chord n b x y = Inr r"
proof (cases "is_revealed (cell_xy b x y)")
  case False
  have "unrevealed_count b < n" using unrevealed_count_le [of b] assms(3) by simp
  from reveal_total [OF assms(1,2) this] show ?thesis
    unfolding reveal_or_chord_reveal [OF assms(1,2) False] by auto
next
  case True
  show ?thesis
  proof (cases "0 < sint (neighbor_mines (cell_xy b x y))")
    case False
    with True show ?thesis by (simp add: reveal_or_chord_noop [OF assms(1,2)])
  next
    case pos: True
    from chord_pass(3) [OF assms] show ?thesis
      unfolding reveal_or_chord_chord [OF assms(1,2) True pos] by auto
  qed
qed

lemma init_board_safe:
  assumes "board_ok b" "\<forall>d \<in> set ds. 0 \<le> d \<and> d < width b * height b"
  shows "case init_board ds b x y of Inr b' \<Rightarrow> same_but_cells b b' | Inl e \<Rightarrow> e = OutOfFuel"
proof -
  have "case place_mines ds b 0 (y * width b + x) of
           Inr b' \<Rightarrow> same_but_cells b b' \<and> (\<exists>j. True \<and> \<not> j < num_mines b')
         | Inl e \<Rightarrow> e = OutOfFuel"
    by (rule place_mines_rule [where I = "\<lambda>_ _. True", OF assms]) simp_all
  then show ?thesis
    by (cases "place_mines ds b 0 (y * width b + x)") (simp_all add: init_board_def)
qed

lemma flag_command_result:
  assumes "board_ok b" "in_bounds b x y"
  shows "flag_command b x y =
           Inr (if is_revealed (cell_xy b x y) then b
                else set_cell b (y * width b + x)
                       ((cell_xy b x y)\<lparr>is_flagged := \<not> is_flagged (cell_xy b x y)\<rparr>))"
  by (simp add: flag_command_def cell_at_in_range [OF assms])

text \<open>
  C9. On a board of positive dimensions with \<open>width * height\<close> cells, for a position of the
  grid and draws of the random engine within \<open>0 .. width * height - 1\<close>: the flood fill, the
  whole \<open>Reveal\<close> case (mine placement, chord and reveal) and the \<open>Flag\<close> case read and
  write cells inside the vector only. In the model an access outside is the error
  \<open>OutOfBounds\<close>; the only failure that occurs is the model's own \<open>OutOfFuel\<close>, and after
  the first turn a depth above the number of cells excludes that one too.
\<close>

theorem cell_accesses_stay_in_bounds:
  assumes "board_ok b" "in_bounds b x y" "\<forall>d \<in> set ds. 0 \<le> d \<and> d < width b * height b"
  shows "(\<forall>e. reveal n b x y = Inl e \<longrightarrow> e = OutOfFuel)
       \<and> (\<forall>e. reveal_command n ds b x y = Inl e \<longrightarrow> e = OutOfFuel)
       \<and> (\<exists>b'. flag_command b x y = Inr b')
       \<and> (time b \<noteq> 1 \<and> length (cells b) < n \<longrightarrow> (\<exists>r. reveal_command n ds b x y = Inr r))"
proof (intro conjI)
  show "\<forall>e. reveal n b x y = Inl e \<longrightarrow> e = OutOfFuel"
    using reveal_safe [OF assms(1,2), of n] by auto
  show "\<exists>b'. flag_command b x y = Inr b'"
    by (simp add: flag_command_result [OF assms(1,2)])
  show "time b \<noteq> 1 \<and> length (cells b) < n \<longrightarrow> (\<exists>r. reveal_command n ds b x y = Inr r)"
    using reveal_or_chord_total [OF assms(1,2)] by (auto simp: reveal_command_def)
  show "\<forall>e. reveal_command n ds b x y = Inl e \<longrightarrow> e = OutOfFuel"
  proof (cases "time b = 1")
    case False
    then show ?thesis
      using reveal_or_chord_safe [OF assms(1,2), of n] by (auto simp: reveal_command_def)
  next
    case True
    show ?thesis
    proof (cases "init_board ds b x y")
      case (Inl e)
      with True init_board_safe [OF assms(1,3), of x y] show ?thesis
        by (simp add: reveal_command_def)
    next
      case (Inr b1)
      with init_board_safe [OF assms(1,3), of x y] have sb: "same_but_cells b b1" by simp
      have "board_ok b1" using sb assms(1) by (rule same_but_cells_board_ok)
      moreover have "in_bounds b1 x y" using assms(2) same_but_cells_in_bounds [OF sb] by simp
      ultimately show ?thesis
        using reveal_or_chord_safe [of b1 x y n] True Inr by (auto simp: reveal_command_def)
    qed
  qed
qed


theorem cell_accesses_stay_in_bounds_witness:
  "(\<exists>r. reveal_command 5 [] row_with_wrong_flag 1 0 = Inr r)
   \<and> (\<exists>b'. flag_command row_with_wrong_flag 1 0 = Inr b')"
proof -
  have h: "board_ok row_with_wrong_flag" "in_bounds row_with_wrong_flag 1 0"
    "\<forall>d \<in> set []. 0 \<le> d \<and> d < width row_with_wrong_flag * height row_with_wrong_flag"
    by (simp_all add: row_with_wrong_flag_def board_ok_def in_bounds_def)
  have t: "time row_with_wrong_flag \<noteq> 1 \<and> length (cells row_with_wrong_flag) < 5"
    by (simp add: row_with_wrong_flag_def)
  from cell_accesses_stay_in_bounds [OF h, of 5] t show ?thesis by blast
qed

text \<open>
  C7. A \<open>Reveal\<close> on a revealed cell whose counter is positive and differs from the number
  of flagged neighbours prints "Incorrect number of flags" and leaves the board as it was:
  no cell changes and \<open>game_over\<close> is not set. (A cell is revealed only after the first turn
  of a game, when \<open>time\<close> is no longer 1 and the \<open>Reveal\<close> case places no mines.)
\<close>

theorem chord_with_wrong_flag_count_is_rejected:
  assumes "board_ok b" "in_bounds b x y" "is_revealed (cell_xy b x y)"
    "0 < sint (neighbor_mines (cell_xy b x y))"
    "flagged_neighbours b x y \<noteq> sint (neighbor_mines (cell_xy b x y))"
  shows "reveal_or_chord n b x y = Inr ([''Incorrect number of flags''], b)
       \<and> (time b \<noteq> 1 \<longrightarrow> reveal_command n ds b x y = Inr ([''Incorrect number of flags''], b))"
  using assms(5) by (simp add: reveal_command_def reveal_or_chord_chord [OF assms(1,2,3,4)])

theorem chord_with_wrong_flag_count_is_rejected_witness:
  "reveal_command 5 [] row_without_flag 1 0
     = Inr ([''Incorrect number of flags''], row_without_flag)"
proof -
  have h: "board_ok row_without_flag" "in_bounds row_without_flag 1 0"
    "is_revealed (cell_xy row_without_flag 1 0)"
    "0 < sint (neighbor_mines (cell_xy row_without_flag 1 0))"
    "flagged_neighbours row_without_flag 1 0
       \<noteq> sint (neighbor_mines (cell_xy row_without_flag 1 0))"
    by (simp_all add: row_without_flag_def board_ok_def in_bounds_def cell_xy_def cell_ref_def
          flagged_neighbours_def neighbours_def)
  have t: "time row_without_flag \<noteq> 1" by (simp add: row_without_flag_def)
  from chord_with_wrong_flag_count_is_rejected [OF h, of 5 "[]"] t show ?thesis by blast
qed

section \<open>The 4-bit counter\<close>

lemma small_counter_cases:
  fixes k :: int
  assumes "0 \<le> k" "k \<le> 8"
  shows "k = 0 \<or> k = 1 \<or> k = 2 \<or> k = 3 \<or> k = 4 \<or> k = 5 \<or> k = 6 \<or> k = 7 \<or> k = 8"
  using assms by arith

lemma counter_zero_iff:
  fixes k :: int
  assumes "0 \<le> k" "k \<le> 8"
  shows "(word_of_int k :: 4 word) = 0 \<longleftrightarrow> k = 0"
  using small_counter_cases [OF assms] by (elim disjE) simp_all

lemma counter_sint:
  fixes k :: int
  assumes "0 \<le> k" "k \<le> 7"
  shows "sint (word_of_int k :: 4 word) = k"
proof -
  from assms have "k = 0 \<or> k = 1 \<or> k = 2 \<or> k = 3 \<or> k = 4 \<or> k = 5 \<or> k = 6 \<or> k = 7"
    by arith
  then show ?thesis by (elim disjE) simp_all
qed

lemma counter_eight: "sint (word_of_int 8 :: 4 word) = - 8"
  by simp

lemma adjacent_mines_bounds: "0 \<le> adjacent_mines b x y" "adjacent_mines b x y \<le> 8"
proof -
  show "0 \<le> adjacent_mines b x y" by (simp add: adjacent_mines_def)
  have "length (filter (\<lambda>p. is_mine (cell_xy b (fst p) (snd p)))
                  (neighbours (width b) (height b) x y))
          \<le> length (neighbours (width b) (height b) x y)"
    by (rule length_filter_le)
  also have "\<dots> \<le> 8" by (rule length_neighbours)
  finally show "adjacent_mines b x y \<le> 8" by (simp add: adjacent_mines_def)
qed

lemma adjacent_mines_zero:
  assumes "adjacent_mines b x y = 0" "q \<in> set (neighbours (width b) (height b) x y)"
  shows "\<not> is_mine (cell_xy b (fst q) (snd q))"
proof -
  from assms(1) have "filter (\<lambda>p. is_mine (cell_xy b (fst p) (snd p)))
                  (neighbours (width b) (height b) x y) = []"
    by (simp add: adjacent_mines_def)
  with assms(2) show ?thesis by (simp add: filter_empty_conv)
qed

lemma adjacent_mines_next_to_safe:
  assumes "in_bounds b x y" "in_bounds b u v" "\<not> is_mine (cell_xy b x y)"
    "(u, v) \<in> set (neighbours (width b) (height b) x y)"
  shows "adjacent_mines b u v \<le> 7"
proof -
  let ?ns = "neighbours (width b) (height b) u v"
  have "(x, y) \<in> set ?ns" using neighbours_sym [OF assms(1,2)] assms(4) by simp
  with assms(3) have "length (filter (\<lambda>p. is_mine (cell_xy b (fst p) (snd p))) ?ns) < length ?ns"
    by (intro length_filter_less [of "(x, y)"]) simp_all
  also have "\<dots> \<le> 8" by (rule length_neighbours)
  finally show ?thesis by (simp add: adjacent_mines_def)
qed

text \<open>With consistent counters, a cell that is no mine and from which \<open>reveal\<close> goes on has
  no mine around it, unless it has eight.\<close>

lemma spreading_cell:
  assumes "counts_consistent b" "in_bounds b x y" "spreads b (x, y)" "adjacent_mines b x y \<le> 7"
  shows "adjacent_mines b x y = 0" "neighbor_mines (cell_xy b x y) = 0"
proof -
  from assms(3) have nm: "\<not> is_mine (cell_xy b x y)"
    and np: "\<not> 0 < sint (neighbor_mines (cell_xy b x y))"
    by (simp_all add: spreads_def)
  from assms(1,2) nm have c: "neighbor_mines (cell_xy b x y) = word_of_int (adjacent_mines b x y)"
    by (simp add: counts_consistent_iff)
  from np show a: "adjacent_mines b x y = 0"
    unfolding c using counter_sint [OF adjacent_mines_bounds(1) assms(4)] adjacent_mines_bounds(1) [of b x y]
    by simp
  from c a show "neighbor_mines (cell_xy b x y) = 0" by simp
qed

lemma safe_cell_counter:
  assumes "counts_consistent b" "in_bounds b x y" "\<not> is_mine (cell_xy b x y)"
    "adjacent_mines b x y \<le> 7"
  shows "sint (neighbor_mines (cell_xy b x y)) = adjacent_mines b x y"
    "neighbor_mines (cell_xy b x y) = 0 \<longleftrightarrow> adjacent_mines b x y = 0"
proof -
  from assms(1,2,3) have c: "neighbor_mines (cell_xy b x y) = word_of_int (adjacent_mines b x y)"
    by (simp add: counts_consistent_iff)
  show "sint (neighbor_mines (cell_xy b x y)) = adjacent_mines b x y"
    unfolding c by (rule counter_sint [OF adjacent_mines_bounds(1) assms(4)])
  show "neighbor_mines (cell_xy b x y) = 0 \<longleftrightarrow> adjacent_mines b x y = 0"
    unfolding c by (rule counter_zero_iff [OF adjacent_mines_bounds])
qed

section \<open>reveal: the cells it can come to\<close>

lemma evolves_cell_xy:
  assumes "board_ok b" "evolves b b'" "in_bounds b u v"
  shows "reveal_or_keep (cell_xy b u v) (cell_xy b' u v)"
proof -
  have "nat (v * width b + u) < length (cells b)" using index_in_range [OF assms(1,3)] by simp
  from evolves_cell [OF assms(2) this] show ?thesis
    by (simp add: cell_xy_def cell_ref_def evolves_fields [OF assms(2)])
qed

lemma evolves_kept:
  assumes "board_ok b" "evolves b b'" "in_bounds b u v"
  shows "is_mine (cell_xy b' u v) = is_mine (cell_xy b u v)"
    "neighbor_mines (cell_xy b' u v) = neighbor_mines (cell_xy b u v)"
    "is_revealed (cell_xy b u v) \<Longrightarrow> cell_xy b' u v = cell_xy b u v"
    "\<not> is_revealed (cell_xy b' u v) \<Longrightarrow> cell_xy b' u v = cell_xy b u v"
    "\<not> is_revealed (cell_xy b u v) \<Longrightarrow> is_revealed (cell_xy b' u v) \<Longrightarrow>
       \<not> is_flagged (cell_xy b' u v)"
  using evolves_cell_xy [OF assms] by (auto simp: reveal_or_keep_def)

lemma evolves_revealed_cells:
  assumes "board_ok b" "evolves b b'"
  shows "revealed_cells b \<subseteq> revealed_cells b'"
  using evolves_kept(3) [OF assms] evolves_in_bounds [OF assms(2)]
  by (auto simp: revealed_cells_def)

lemma evolves_spreads:
  assumes "board_ok b" "evolves b b'" "in_bounds b u v"
  shows "spreads b' (u, v) = spreads b (u, v)"
  using evolves_kept(1,2) [OF assms] by (simp add: spreads_def)

lemma flood_reach_in_bounds:
  assumes "in_bounds b x y" "p \<in> flood_reach b x y"
  shows "in_bounds b (fst p) (snd p)"
  using assms(2)
proof induction
  case start
  then show ?case using assms(1) by simp
next
  case (step p q)
  then show ?case using neighbours_in_bounds by blast
qed

lemma flood_reach_trans:
  assumes "q \<in> flood_reach b x y" "r \<in> flood_reach b (fst q) (snd q)"
  shows "r \<in> flood_reach b x y"
  using assms(2,1)
proof induction
  case start
  then show ?case by simp
next
  case (step p r)
  then show ?case using flood_reach.step by blast
qed

lemma revealed_cells_set_cell:
  assumes "board_ok b" "in_bounds b x y" "is_revealed c"
  shows "revealed_cells (set_cell b (y * width b + x) c) = insert (x, y) (revealed_cells b)"
proof -
  have "\<And>p. in_bounds b (fst p) (snd p) \<Longrightarrow>
          is_revealed (cell_xy (set_cell b (y * width b + x) c) (fst p) (snd p))
            = (p = (x, y) \<or> is_revealed (cell_xy b (fst p) (snd p)))"
    using cell_xy_set_cell [OF assms(1,2)] assms(3) by (auto simp: prod_eq_iff)
  then show ?thesis using assms(2)
    by (auto simp: revealed_cells_def in_bounds_def)
qed

text \<open>\<open>reveal\<close> reveals nothing outside the positions it can come to.\<close>

lemma reveal_within_reach:
  fixes b0 :: "'a board_scheme"
  assumes "board_ok b0" "evolves b0 b" "in_bounds b0 x y" "reveal n b x y = Inr b'"
  shows "revealed_cells b' \<subseteq> revealed_cells b \<union> flood_reach b0 x y"
  using assms(2,3,4)
proof (induction n arbitrary: b x y b')
  case 0
  then show ?case by simp
next
  case (Suc n)
  have ok: "board_ok b" using Suc.prems(1) assms(1) by (rule evolves_board_ok)
  have xy: "in_bounds b x y" using Suc.prems(1,2) by (simp add: evolves_in_bounds)
  let ?c = "cell_xy b x y"
  let ?b1 = "set_cell b (y * width b + x) (?c\<lparr>is_flagged := False, is_revealed := True\<rparr>)"
  note c = cell_at_in_range [OF ok xy]
  show ?case
  proof (cases "is_revealed ?c")
    case True
    with Suc.prems(3) show ?thesis by (simp add: reveal_Suc c)
  next
    case False
    have r1: "revealed_cells ?b1 = insert (x, y) (revealed_cells b)"
      by (rule revealed_cells_set_cell [OF ok xy]) simp
    have e1: "evolves b ?b1"
      using evolves_set_cell [OF index_in_range [OF ok xy]] False
      by (simp add: cell_xy_def cell_ref_def)
    show ?thesis
    proof (cases "is_mine ?c \<or> 0 < sint (neighbor_mines ?c)")
      case True
      with Suc.prems(3) False have "b' = ?b1" by (simp add: reveal_Suc c)
      with r1 show ?thesis by (auto intro: flood_reach.start)
    next
      case go: False
      then have sp: "spreads b0 (x, y)"
        using evolves_kept(1,2) [OF assms(1) Suc.prems(1,2)] by (simp add: spreads_def)
      let ?I = "\<lambda>s. evolves ?b1 s \<and> revealed_cells s \<subseteq> revealed_cells ?b1 \<union> flood_reach b0 x y"
      have "case visit_all (reveal n) (neighbours (width b) (height b) x y) ?b1 of
              Inr s' \<Rightarrow> ?I s' | Inl e \<Rightarrow> e \<in> UNIV"
      proof (rule visit_all_inv [where I = ?I])
        show "?I ?b1" by (simp add: evolves_refl)
      next
        fix s :: "'a board_scheme" and q
        assume s: "?I s" and q: "q \<in> set (neighbours (width b) (height b) x y)"
        have es: "evolves b0 s" using Suc.prems(1) e1 s by (blast intro: evolves_trans)
        have qb: "in_bounds b0 (fst q) (snd q)"
          using neighbours_in_bounds [OF xy q] Suc.prems(1) by (simp add: evolves_in_bounds)
        have "q \<in> set (neighbours (width b0) (height b0) x y)"
          using q evolves_fields(1,2) [OF Suc.prems(1)] by simp
        then have qr: "q \<in> flood_reach b0 x y"
          using flood_reach.step [OF flood_reach.start sp] by simp
        show "case reveal n s (fst q) (snd q) of Inr s' \<Rightarrow> ?I s' | Inl e \<Rightarrow> e \<in> UNIV"
        proof (cases "reveal n s (fst q) (snd q)")
          case (Inl e)
          then show ?thesis by simp
        next
          case (Inr s')
          from Suc.IH [OF es qb Inr]
          have "revealed_cells s' \<subseteq> revealed_cells s \<union> flood_reach b0 (fst q) (snd q)" .
          moreover have "flood_reach b0 (fst q) (snd q) \<subseteq> flood_reach b0 x y"
            using flood_reach_trans [OF qr] by blast
          moreover have "evolves ?b1 s'" using s reveal_evolves [OF Inr] by (blast intro: evolves_trans)
          ultimately show ?thesis using s Inr by auto
        qed
      qed
      moreover from Suc.prems(3) False go
      have "visit_all (reveal n) (neighbours (width b) (height b) x y) ?b1 = Inr b'"
        by (simp add: reveal_Suc c)
      ultimately show ?thesis using r1 by (auto intro: flood_reach.start)
    qed
  qed
qed

section \<open>reveal: what it leaves behind\<close>

lemma closed_except_iff:
  "closed_except P b \<longleftrightarrow>
     (\<forall>u v. in_bounds b u v \<and> (u, v) \<notin> P \<and> is_revealed (cell_xy b u v) \<and> spreads b (u, v)
        \<longrightarrow> (\<forall>q \<in> set (neighbours (width b) (height b) u v).
               is_revealed (cell_xy b (fst q) (snd q))))"
  by (auto simp: closed_except_def set_positions)

lemma flood_closed_iff: "flood_closed b \<longleftrightarrow> closed_except {} b"
  by (simp add: flood_closed_def closed_except_def spreads_def)

lemma visit_all_reveal_reveals:
  fixes s :: "'a board_scheme"
  assumes "board_ok s" "\<forall>q \<in> set ps. in_bounds s (fst q) (snd q)"
    "visit_all (reveal n) ps s = Inr s'"
  shows "\<forall>q \<in> set ps. is_revealed (cell_xy s' (fst q) (snd q))"
  using assms
proof (induction ps arbitrary: s)
  case Nil
  then show ?case by simp
next
  case (Cons p ps)
  from Cons.prems(3) obtain s1 where s1: "reveal n s (fst p) (snd p) = Inr s1"
    and rest: "visit_all (reveal n) ps s1 = Inr s'"
    by (auto simp: and_then_eq_Inr)
  from Cons.prems(2) have p: "in_bounds s (fst p) (snd p)" by simp
  note e1 = reveal_evolves [OF s1]
  have ok1: "board_ok s1" using e1 Cons.prems(1) by (rule evolves_board_ok)
  have in1: "\<forall>q \<in> set ps. in_bounds s1 (fst q) (snd q)"
    using Cons.prems(2) by (simp add: evolves_in_bounds [OF e1])
  have e': "evolves s1 s'" using rest by (rule visit_all_evolves) (rule reveal_evolves)
  have "is_revealed (cell_xy s1 (fst p) (snd p))"
    by (rule reveal_reveals [OF Cons.prems(1) p s1])
  moreover have "in_bounds s1 (fst p) (snd p)" using p by (simp add: evolves_in_bounds [OF e1])
  ultimately have "is_revealed (cell_xy s' (fst p) (snd p))"
    using evolves_kept(3) [OF ok1 e'] by simp
  with Cons.IH [OF ok1 in1 rest] show ?case by simp
qed

lemma closed_except_step:
  fixes b :: "'a board_scheme"
  assumes "board_ok b" "evolves b b1" "closed_except P b"
    "revealed_cells b1 \<subseteq> revealed_cells b \<union> Q"
  shows "closed_except (P \<union> Q) b1"
  unfolding closed_except_iff
proof (intro allI impI ballI)
  fix u v q
  assume h: "in_bounds b1 u v \<and> (u, v) \<notin> P \<union> Q \<and> is_revealed (cell_xy b1 u v) \<and> spreads b1 (u, v)"
    and q: "q \<in> set (neighbours (width b1) (height b1) u v)"
  note f = evolves_fields [OF assms(2)]
  from h have uv: "in_bounds b u v" by (simp add: evolves_in_bounds [OF assms(2)])
  from h have "(u, v) \<in> revealed_cells b1" by (simp add: revealed_cells_def)
  with assms(4) h have "(u, v) \<in> revealed_cells b" by auto
  then have r: "is_revealed (cell_xy b u v)" by (simp add: revealed_cells_def)
  from h have sp: "spreads b (u, v)" using evolves_spreads [OF assms(1,2) uv] by simp
  from q have q': "q \<in> set (neighbours (width b) (height b) u v)" by (simp add: f)
  with assms(3) uv h r sp have "is_revealed (cell_xy b (fst q) (snd q))"
    unfolding closed_except_iff by blast
  moreover have "in_bounds b (fst q) (snd q)" using neighbours_in_bounds [OF uv q'] .
  ultimately show "is_revealed (cell_xy b1 (fst q) (snd q))"
    using evolves_kept(3) [OF assms(1,2)] by simp
qed

lemma closed_except_finish:
  fixes b :: "'a board_scheme"
  assumes "closed_except (insert (x, y) P) b"
    "spreads b (x, y) \<Longrightarrow>
       \<forall>q \<in> set (neighbours (width b) (height b) x y). is_revealed (cell_xy b (fst q) (snd q))"
  shows "closed_except P b"
  unfolding closed_except_iff
proof (intro allI impI)
  fix u v
  assume h: "in_bounds b u v \<and> (u, v) \<notin> P \<and> is_revealed (cell_xy b u v) \<and> spreads b (u, v)"
  show "\<forall>q \<in> set (neighbours (width b) (height b) u v). is_revealed (cell_xy b (fst q) (snd q))"
  proof (cases "(u, v) = (x, y)")
    case True
    with h assms(2) show ?thesis by simp
  next
    case False
    with h assms(1) show ?thesis unfolding closed_except_iff by blast
  qed
qed

lemma reveal_closed:
  fixes b :: "'a board_scheme"
  assumes "board_ok b" "in_bounds b x y" "closed_except P b" "reveal n b x y = Inr b'"
  shows "closed_except P b'"
  using assms
proof (induction n arbitrary: b x y b' P)
  case 0
  then show ?case by simp
next
  case (Suc n)
  note ok = Suc.prems(1) and xy = Suc.prems(2)
  let ?c = "cell_xy b x y"
  let ?b1 = "set_cell b (y * width b + x) (?c\<lparr>is_flagged := False, is_revealed := True\<rparr>)"
  let ?ns = "neighbours (width b) (height b) x y"
  note c = cell_at_in_range [OF ok xy]
  show ?case
  proof (cases "is_revealed ?c")
    case True
    with Suc.prems(3,4) show ?thesis by (simp add: reveal_Suc c)
  next
    case False
    have r1: "revealed_cells ?b1 = insert (x, y) (revealed_cells b)"
      by (rule revealed_cells_set_cell [OF ok xy]) simp
    have e1: "evolves b ?b1"
      using evolves_set_cell [OF index_in_range [OF ok xy]] False
      by (simp add: cell_xy_def cell_ref_def)
    have ok1: "board_ok ?b1" using e1 ok by (rule evolves_board_ok)
    have "closed_except (P \<union> {(x, y)}) ?b1"
      by (rule closed_except_step [OF ok e1 Suc.prems(3)]) (simp add: r1)
    then have c1: "closed_except (insert (x, y) P) ?b1" by simp
    have sp1: "spreads ?b1 (x, y) = spreads b (x, y)" by (rule evolves_spreads [OF ok e1 xy])
    show ?thesis
    proof (cases "is_mine ?c \<or> 0 < sint (neighbor_mines ?c)")
      case True
      with Suc.prems(4) False have b': "b' = ?b1" by (simp add: reveal_Suc c)
      from True have "\<not> spreads b (x, y)" by (auto simp: spreads_def)
      with sp1 show ?thesis unfolding b' by (intro closed_except_finish [OF c1]) simp
    next
      case go: False
      with Suc.prems(4) False
      have v: "visit_all (reveal n) ?ns ?b1 = Inr b'" by (simp add: reveal_Suc c)
      let ?I = "\<lambda>s. evolves ?b1 s \<and> closed_except (insert (x, y) P) s"
      have "case visit_all (reveal n) ?ns ?b1 of Inr s' \<Rightarrow> ?I s' | Inl e \<Rightarrow> e \<in> UNIV"
      proof (rule visit_all_inv [where I = ?I])
        show "?I ?b1" using c1 by (simp add: evolves_refl)
      next
        fix s :: "'a board_scheme" and q
        assume s: "?I s" and q: "q \<in> set ?ns"
        have es: "evolves b s" using e1 s by (blast intro: evolves_trans)
        have oks: "board_ok s" using es ok by (rule evolves_board_ok)
        have qs: "in_bounds s (fst q) (snd q)"
          using neighbours_in_bounds [OF xy q] by (simp add: evolves_in_bounds [OF es])
        show "case reveal n s (fst q) (snd q) of Inr s' \<Rightarrow> ?I s' | Inl e \<Rightarrow> e \<in> UNIV"
        proof (cases "reveal n s (fst q) (snd q)")
          case (Inl e)
          then show ?thesis by simp
        next
          case (Inr s')
          have "closed_except (insert (x, y) P) s'"
            using Suc.IH [OF oks qs _ Inr] s by simp
          moreover have "evolves ?b1 s'"
            using s reveal_evolves [OF Inr] by (blast intro: evolves_trans)
          ultimately show ?thesis using Inr by simp
        qed
      qed
      with v have e': "evolves ?b1 b'" and c': "closed_except (insert (x, y) P) b'" by simp_all
      have in1: "\<forall>q \<in> set ?ns. in_bounds ?b1 (fst q) (snd q)"
        using neighbours_in_bounds [OF xy] by (simp add: evolves_in_bounds [OF e1])
      have "\<forall>q \<in> set ?ns. is_revealed (cell_xy b' (fst q) (snd q))"
        by (rule visit_all_reveal_reveals [OF ok1 in1 v])
      moreover have "neighbours (width b') (height b') x y = ?ns"
        using evolves_fields(1,2) [OF e'] by simp
      ultimately show ?thesis by (intro closed_except_finish [OF c']) simp
    qed
  qed
qed

section \<open>reveal: the region it opens\<close>

lemma safe_reach:
  assumes "board_ok b" "counts_consistent b" "in_bounds b x y"
    "\<not> is_mine (cell_xy b x y)" "adjacent_mines b x y \<le> 7" "p \<in> flood_reach b x y"
  shows "in_bounds b (fst p) (snd p) \<and> \<not> is_mine (cell_xy b (fst p) (snd p))
         \<and> adjacent_mines b (fst p) (snd p) \<le> 7"
  using assms(6)
proof induction
  case start
  then show ?case using assms(3,4,5) by simp
next
  case (step p q)
  then have p: "in_bounds b (fst p) (snd p)" "\<not> is_mine (cell_xy b (fst p) (snd p))"
    "adjacent_mines b (fst p) (snd p) \<le> 7" by simp_all
  from step.hyps(2) have sp: "spreads b (fst p, snd p)" by simp
  note z = spreading_cell [OF assms(2) p(1) sp p(3)]
  have q: "in_bounds b (fst q) (snd q)" using neighbours_in_bounds [OF p(1) step.hyps(3)] .
  have "\<not> is_mine (cell_xy b (fst q) (snd q))" using adjacent_mines_zero [OF z(1) step.hyps(3)] .
  moreover have "adjacent_mines b (fst q) (snd q) \<le> 7"
    using adjacent_mines_next_to_safe [OF p(1) q p(2)] step.hyps(3) by simp
  ultimately show ?case using q by simp
qed

lemma reach_in_region:
  assumes "board_ok b" "counts_consistent b" "in_bounds b x y"
    "\<not> is_mine (cell_xy b x y)" "neighbor_mines (cell_xy b x y) = 0" "p \<in> flood_reach b x y"
  shows "p \<in> zero_region b x y \<union> region_border b x y"
proof -
  have a0: "adjacent_mines b x y \<le> 7"
  proof -
    from assms(2,3,4,5) have "(word_of_int (adjacent_mines b x y) :: 4 word) = 0"
      by (simp add: counts_consistent_iff)
    then show ?thesis using counter_zero_iff [OF adjacent_mines_bounds, of b x y] by simp
  qed
  note safe = safe_reach [OF assms(1,2,3,4) a0]
  from assms(6) show ?thesis
  proof induction
    case start
    then show ?case by (simp add: zero_region.start)
  next
    case (step p q)
    note p = safe [OF step.hyps(1)]
    from step.hyps(2) have sp: "spreads b (fst p, snd p)" by simp
    then have "\<not> 0 < sint (neighbor_mines (cell_xy b (fst p) (snd p)))" by (simp add: spreads_def)
    then have "p \<notin> region_border b x y" by (auto simp: region_border_def)
    with step.IH have pr: "p \<in> zero_region b x y" by simp
    note q = safe [OF flood_reach.step [OF step.hyps(1,2,3)]]
    note cq = safe_cell_counter [of b "fst q" "snd q"]
    show ?case
    proof (cases "neighbor_mines (cell_xy b (fst q) (snd q)) = 0")
      case True
      then show ?thesis using zero_region.step [OF pr step.hyps(3)] by simp
    next
      case False
      then have "0 < sint (neighbor_mines (cell_xy b (fst q) (snd q)))"
        using cq assms(2) q adjacent_mines_bounds(1) [of b "fst q" "snd q"] by simp
      then show ?thesis using pr step.hyps(3) by (auto simp: region_border_def)
    qed
  qed
qed

lemma region_revealed:
  fixes b :: "'a board_scheme"
  assumes "board_ok b" "counts_consistent b" "in_bounds b x y"
    "\<not> is_mine (cell_xy b x y)" "neighbor_mines (cell_xy b x y) = 0"
    "evolves b b'" "closed_except {} b'" "is_revealed (cell_xy b' x y)"
    "p \<in> zero_region b x y"
  shows "in_bounds b (fst p) (snd p) \<and> \<not> is_mine (cell_xy b (fst p) (snd p))
         \<and> adjacent_mines b (fst p) (snd p) = 0
         \<and> is_revealed (cell_xy b' (fst p) (snd p))
         \<and> (\<forall>q \<in> set (neighbours (width b) (height b) (fst p) (snd p)).
               is_revealed (cell_xy b' (fst q) (snd q)))"
proof -
  have around: "\<forall>q \<in> set (neighbours (width b) (height b) u v). is_revealed (cell_xy b' (fst q) (snd q))"
    if "in_bounds b u v" "\<not> is_mine (cell_xy b u v)" "neighbor_mines (cell_xy b u v) = 0"
      "is_revealed (cell_xy b' u v)" for u v
  proof -
    have "spreads b (u, v)" using that(2,3) by (simp add: spreads_def)
    then have "spreads b' (u, v)" using evolves_spreads [OF assms(1,6) that(1)] by simp
    moreover have "in_bounds b' u v" using that(1) by (simp add: evolves_in_bounds [OF assms(6)])
    ultimately show ?thesis
      using assms(7) that(4) evolves_fields(1,2) [OF assms(6)]
      unfolding closed_except_iff by simp
  qed
  have zero: "adjacent_mines b u v = 0"
    if "in_bounds b u v" "\<not> is_mine (cell_xy b u v)" "neighbor_mines (cell_xy b u v) = 0" for u v
  proof -
    from assms(2) that have "(word_of_int (adjacent_mines b u v) :: 4 word) = 0"
      by (simp add: counts_consistent_iff)
    then show ?thesis using counter_zero_iff [OF adjacent_mines_bounds, of b u v] by simp
  qed
  from assms(9) show ?thesis
  proof induction
    case start
    then show ?case using assms(3,4,5,8) around zero by simp
  next
    case (step p q)
    then have p: "in_bounds b (fst p) (snd p)" "\<not> is_mine (cell_xy b (fst p) (snd p))"
      "adjacent_mines b (fst p) (snd p) = 0"
      and pq: "is_revealed (cell_xy b' (fst q) (snd q))" by simp_all
    have q: "in_bounds b (fst q) (snd q)" using neighbours_in_bounds [OF p(1) step.hyps(2)] .
    have qm: "\<not> is_mine (cell_xy b (fst q) (snd q))"
      using adjacent_mines_zero [OF p(3) step.hyps(2)] .
    from around [OF q qm step.hyps(3) pq] zero [OF q qm step.hyps(3)] q qm pq
    show ?case by simp
  qed
qed

section \<open>reveal and its logged copy\<close>

lemma truncate_fields [simp]:
  "width (board.truncate s) = width s" "height (board.truncate s) = height s"
  "cells (board.truncate s) = cells s" "num_mines (board.truncate s) = num_mines s"
  "game_over (board.truncate s) = game_over s" "time (board.truncate s) = time s"
  by (simp_all add: board.defs)

lemma truncate_updates [simp]:
  "board.truncate (set_cell s i c) = set_cell (board.truncate s) i c"
  "board.truncate (s\<lparr>writes := w\<rparr>) = board.truncate s"
  "cell_at (board.truncate s) i = cell_at s i"
  by (simp_all add: board.defs set_cell_def cell_at_def)

lemma truncate_notions [simp]:
  "cell_xy (board.truncate s) u v = cell_xy s u v"
  "in_bounds (board.truncate s) u v = in_bounds s u v"
  "board_ok (board.truncate s) = board_ok s"
  "revealed_cells (board.truncate s) = revealed_cells s"
  by (simp_all add: cell_xy_def cell_ref_def in_bounds_def board_ok_def revealed_cells_def)

lemma visit_all_sim:
  assumes "\<And>s p. case g (tr s) (fst p) (snd p) of
                    Inl e \<Rightarrow> f s (fst p) (snd p) = Inl e
                  | Inr t' \<Rightarrow> \<exists>s'. f s (fst p) (snd p) = Inr s' \<and> tr s' = t'"
  shows "case visit_all g ps (tr s) of
           Inl e \<Rightarrow> visit_all f ps s = Inl e
         | Inr t' \<Rightarrow> \<exists>s'. visit_all f ps s = Inr s' \<and> tr s' = t'"
proof (induction ps arbitrary: s)
  case Nil
  then show ?case by simp
next
  case (Cons p ps)
  show ?case
  proof (cases "g (tr s) (fst p) (snd p)")
    case (Inl e)
    with assms [of s p] show ?thesis by simp
  next
    case (Inr t1)
    with assms [of s p] obtain s1 where s1: "f s (fst p) (snd p) = Inr s1" "tr s1 = t1" by auto
    with Cons.IH [of s1] Inr show ?thesis
      by (cases "visit_all g ps t1") auto
  qed
qed

lemma reveal_logged_sim:
  "case reveal n (board.truncate s) x y of
     Inl e \<Rightarrow> reveal_logged n s x y = Inl e
   | Inr t' \<Rightarrow> \<exists>s'. reveal_logged n s x y = Inr s' \<and> board.truncate s' = t'"
proof (induction n arbitrary: s x y)
  case 0
  then show ?case by simp
next
  case (Suc n)
  have dims: "\<And>s x y s'. reveal_logged n s x y = Inr s' \<Longrightarrow> width s' = width s \<and> height s' = height s"
  proof -
    fix s x y s' assume r: "reveal_logged n s x y = Inr s'"
    with Suc.IH [of s x y] obtain t' where t': "reveal n (board.truncate s) x y = Inr t'"
      "board.truncate s' = t'"
      by (cases "reveal n (board.truncate s) x y") auto
    from reveal_dims [OF t'(1)] t'(2) have "width (board.truncate s') = width (board.truncate s)
        \<and> height (board.truncate s') = height (board.truncate s)" by simp
    then show "width s' = width s \<and> height s' = height s" by simp
  qed
  have fe: "\<And>s1 :: logged_board. for_each_neighbour s1 x y (reveal_logged n) =
          visit_all (reveal_logged n) (neighbours (width s1) (height s1) x y) s1"
    by (rule for_each_neighbour_visit_all) (rule dims)
  have vs: "\<And>ps s1. case visit_all (reveal n) ps (board.truncate s1) of
           Inl e \<Rightarrow> visit_all (reveal_logged n) ps s1 = Inl e
         | Inr t' \<Rightarrow> \<exists>s'. visit_all (reveal_logged n) ps s1 = Inr s' \<and> board.truncate s' = t'"
    by (rule visit_all_sim [where tr = board.truncate]) (rule Suc.IH)
  show ?case
  proof (cases "cell_at s (y * width s + x)")
    case (Inl e)
    then show ?thesis by (simp add: reveal_Suc)
  next
    case (Inr c)
    let ?c' = "c\<lparr>is_flagged := False, is_revealed := True\<rparr>"
    let ?s1 = "(set_cell s (y * width s + x) ?c')\<lparr>writes := writes s @ [(x, y)]\<rparr>"
    have w1: "width ?s1 = width s" "height ?s1 = height s" by (simp_all add: set_cell_def)
    let ?t1 = "set_cell (board.truncate s) (y * width s + x) ?c'"
    have t1: "board.truncate ?s1 = ?t1" by simp
    show ?thesis
    proof (cases "is_revealed c \<or> is_mine c \<or> 0 < sint (neighbor_mines c)")
      case True
      with Inr show ?thesis by (auto simp: reveal_Suc Let_def)
    next
      case False
      with Inr have l: "reveal_logged (Suc n) s x y
                 = visit_all (reveal_logged n) (neighbours (width s) (height s) x y) ?s1"
        by (simp add: Let_def fe w1)
      from False Inr have r: "reveal (Suc n) (board.truncate s) x y
                 = visit_all (reveal n) (neighbours (width s) (height s) x y) ?t1"
        by (simp add: reveal_Suc)
      from vs [of "neighbours (width s) (height s) x y" ?s1]
      show ?thesis unfolding l r t1 .
    qed
  qed
qed

lemma reveal_logged_board:
  assumes "reveal_logged n s x y = Inr s'"
  shows "reveal n (board.truncate s) x y = Inr (board.truncate s')"
  using reveal_logged_sim [of n s x y] assms
  by (cases "reveal n (board.truncate s) x y") auto

lemma reveal_logged_Suc:
  "reveal_logged (Suc n) s x y =
     (case cell_at s (y * width s + x) of
        Inl e \<Rightarrow> Inl e
      | Inr c \<Rightarrow>
          if is_revealed c then Inr s
          else if is_mine c \<or> sint (neighbor_mines c) > 0 then
            Inr ((set_cell s (y * width s + x) (c\<lparr>is_flagged := False, is_revealed := True\<rparr>))
                   \<lparr>writes := writes s @ [(x, y)]\<rparr>)
          else
            visit_all (reveal_logged n) (neighbours (width s) (height s) x y)
              ((set_cell s (y * width s + x) (c\<lparr>is_flagged := False, is_revealed := True\<rparr>))
                 \<lparr>writes := writes s @ [(x, y)]\<rparr>))"
proof -
  have dims: "\<And>s x y s'. reveal_logged n s x y = Inr s' \<Longrightarrow> width s' = width s \<and> height s' = height s"
  proof -
    fix s x y s' assume r: "reveal_logged n s x y = Inr s'"
    from reveal_dims [OF reveal_logged_board [OF r]]
    show "width s' = width s \<and> height s' = height s" by simp
  qed
  have fe: "\<And>s1 :: logged_board. for_each_neighbour s1 x y (reveal_logged n) =
          visit_all (reveal_logged n) (neighbours (width s1) (height s1) x y) s1"
    by (rule for_each_neighbour_visit_all) (rule dims)
  show ?thesis by (simp add: Let_def fe set_cell_def split: sum.splits)
qed

declare reveal_logged.simps(2) [simp del]

lemma reveal_logged_evolves:
  assumes "reveal_logged n s x y = Inr s'"
  shows "evolves (board.truncate s) (board.truncate s')"
  using reveal_evolves [OF reveal_logged_board [OF assms]] .

lemma writes_set_cell [simp]: "writes (set_cell s i c) = writes s"
  by (simp add: set_cell_def)

lemma revealed_cells_writes [simp]: "revealed_cells (s\<lparr>writes := w\<rparr>) = revealed_cells s"
  by (simp add: revealed_cells_def in_bounds_def cell_xy_def cell_ref_def)

text \<open>The log of a call lists the cells the call has revealed, each once.\<close>

lemma reveal_logged_writes:
  assumes "board_ok s" "in_bounds s x y" "reveal_logged n s x y = Inr s'"
  shows "\<exists>tr. writes s' = writes s @ tr \<and> distinct tr
              \<and> set tr = revealed_cells s' - revealed_cells s"
  using assms
proof (induction n arbitrary: s x y s')
  case 0
  then show ?case by simp
next
  case (Suc n)
  note ok = Suc.prems(1) and xy = Suc.prems(2)
  let ?c = "cell_xy s x y"
  let ?s1 = "(set_cell s (y * width s + x) (?c\<lparr>is_flagged := False, is_revealed := True\<rparr>))
               \<lparr>writes := writes s @ [(x, y)]\<rparr>"
  let ?ns = "neighbours (width s) (height s) x y"
  note c = cell_at_in_range [OF ok xy]
  show ?case
  proof (cases "is_revealed ?c")
    case True
    with Suc.prems(3) show ?thesis by (simp add: reveal_logged_Suc c)
  next
    case False
    have r1: "revealed_cells ?s1 = insert (x, y) (revealed_cells s)"
      using revealed_cells_set_cell [OF ok xy] by simp
    have new: "(x, y) \<notin> revealed_cells s" using False by (simp add: revealed_cells_def)
    have ok1: "board_ok ?s1" using ok by (simp add: board_ok_def set_cell_def)
    show ?thesis
    proof (cases "is_mine ?c \<or> 0 < sint (neighbor_mines ?c)")
      case True
      with Suc.prems(3) False have "s' = ?s1" by (simp add: reveal_logged_Suc c)
      then show ?thesis using r1 new by auto
    next
      case go: False
      with Suc.prems(3) False
      have v: "visit_all (reveal_logged n) ?ns ?s1 = Inr s'" by (simp add: reveal_logged_Suc c)
      let ?I = "\<lambda>u. evolves (board.truncate ?s1) (board.truncate u)
                  \<and> (\<exists>tr. writes u = writes ?s1 @ tr \<and> distinct tr
                           \<and> set tr = revealed_cells u - revealed_cells ?s1)"
      have "case visit_all (reveal_logged n) ?ns ?s1 of Inr u \<Rightarrow> ?I u | Inl e \<Rightarrow> e \<in> UNIV"
      proof (rule visit_all_inv [where I = ?I])
        show "?I ?s1" by (simp add: evolves_refl)
      next
        fix u :: logged_board and q
        assume u: "?I u" and q: "q \<in> set ?ns"
        then obtain tr where tr: "writes u = writes ?s1 @ tr" "distinct tr"
          "set tr = revealed_cells u - revealed_cells ?s1" by blast
        from u have eu: "evolves (board.truncate ?s1) (board.truncate u)" by simp
        have ok1t: "board_ok (board.truncate ?s1)" using ok1 by (simp only: truncate_notions)
        have "board_ok (board.truncate u)" using eu ok1t by (rule evolves_board_ok)
        then have oku: "board_ok u" by simp
        have wu: "width u = width s" "height u = height s"
          using evolves_fields(1,2) [OF eu] by (simp_all add: set_cell_def)
        have qu: "in_bounds u (fst q) (snd q)"
          using neighbours_in_bounds [OF xy q] by (simp add: in_bounds_def wu)
        have m1: "revealed_cells ?s1 \<subseteq> revealed_cells u"
          using evolves_revealed_cells [OF ok1t eu] by (simp only: truncate_notions)
        show "case reveal_logged n u (fst q) (snd q) of Inr u' \<Rightarrow> ?I u' | Inl e \<Rightarrow> e \<in> UNIV"
        proof (cases "reveal_logged n u (fst q) (snd q)")
          case (Inl e)
          then show ?thesis by simp
        next
          case (Inr u')
          from Suc.IH [OF oku qu Inr] obtain tr' where tr': "writes u' = writes u @ tr'"
            "distinct tr'" "set tr' = revealed_cells u' - revealed_cells u" by blast
          note e' = reveal_logged_evolves [OF Inr]
          have m2: "revealed_cells u \<subseteq> revealed_cells u'"
            using evolves_revealed_cells [OF _ e'] oku by (simp only: truncate_notions)
          have "writes u' = writes ?s1 @ (tr @ tr')" using tr(1) tr'(1) by simp
          moreover have "distinct (tr @ tr')" using tr(2,3) tr'(2,3) by auto
          moreover have "set (tr @ tr') = revealed_cells u' - revealed_cells ?s1"
            using tr(3) tr'(3) m1 m2 by auto
          moreover have "evolves (board.truncate ?s1) (board.truncate u')"
            using eu e' by (rule evolves_trans)
          ultimately show ?thesis using Inr by auto
        qed
      qed
      with v obtain tr where e': "evolves (board.truncate ?s1) (board.truncate s')"
        and tr: "writes s' = writes ?s1 @ tr" "distinct tr"
          "set tr = revealed_cells s' - revealed_cells ?s1" by auto
      have ok1t: "board_ok (board.truncate ?s1)" using ok1 by (simp only: truncate_notions)
      have m: "revealed_cells ?s1 \<subseteq> revealed_cells s'"
        using evolves_revealed_cells [OF ok1t e'] by (simp only: truncate_notions)
      have "writes s' = writes s @ ((x, y) # tr)" using tr(1) by simp
      moreover have "distinct ((x, y) # tr)" using tr(2,3) r1 by simp
      moreover have "set ((x, y) # tr) = revealed_cells s' - revealed_cells s"
        using tr(3) r1 new m by auto
      ultimately show ?thesis by blast
    qed
  qed
qed

section \<open>The flood fill from a cell with counter 0\<close>

lemma zero_counter_safe:
  assumes "counts_consistent b" "in_bounds b x y" "\<not> is_mine (cell_xy b x y)"
    "neighbor_mines (cell_xy b x y) = 0"
  shows "adjacent_mines b x y = 0"
proof -
  from assms have "(word_of_int (adjacent_mines b x y) :: 4 word) = 0"
    by (simp add: counts_consistent_iff)
  then show ?thesis using counter_zero_iff [OF adjacent_mines_bounds, of b x y] by simp
qed

text \<open>
  A flood fill that cascades: the board \<open>corner_mine_board\<close> is the one the program has
  built when the first command of a 3 x 3 game with one mine is Reveal at \<open>(0, 0)\<close> and the
  engine draws position 8. Its region of counter 0 around \<open>(0, 0)\<close> has five cells and a
  border of three cells with counter 1.
\<close>

lemma init_board_corner_mine_board:
  "init_board [8] ((fresh_board 3 3 1)\<lparr>time := 1\<rparr>) 0 0 = Inr corner_mine_board"
  by code_simp

lemma revealed_cells_positions:
  "revealed_cells b
     = set (filter (\<lambda>p. is_revealed (cell_xy b (fst p) (snd p))) (positions b))"
  by (auto simp: revealed_cells_def)

lemma region_border_list:
  assumes "zero_region b x y = set zs"
  shows "region_border b x y
     = set (filter (\<lambda>q. 0 < sint (neighbor_mines (cell_xy b (fst q) (snd q))))
              (concat (map (\<lambda>p. neighbours (width b) (height b) (fst p) (snd p)) zs)))"
  by (auto simp: region_border_def assms)

lemma corner_mine_board_zero_region:
  "zero_region corner_mine_board 0 0 = set [(0, 0), (1, 0), (2, 0), (0, 1), (0, 2)]"
proof -
  let ?b = corner_mine_board
  let ?zs = "[(0, 0), (1, 0), (2, 0), (0, 1), (0, 2)] :: (int \<times> int) list"
  have closed: "\<forall>p \<in> set ?zs. \<forall>q \<in> set (neighbours (width ?b) (height ?b) (fst p) (snd p)).
      neighbor_mines (cell_xy ?b (fst q) (snd q)) = 0 \<longrightarrow> q \<in> set ?zs"
    by code_simp
  have sub: "p \<in> set ?zs" if "p \<in> zero_region ?b 0 0" for p
    using that
  proof (induction rule: zero_region.induct)
    case start
    show ?case by simp
  next
    case (step p q)
    with closed show ?case by blast
  qed
  have z: "\<And>q. neighbor_mines (cell_xy ?b (fst q) (snd q)) = 0 \<longleftrightarrow>
      (let c = cell_xy ?b (fst q) (snd q) in neighbor_mines c = 0)" by simp
  have s00: "(0, 0) \<in> zero_region ?b 0 0" by (rule zero_region.start)
  have s10: "(1, 0) \<in> zero_region ?b 0 0"
  proof (rule zero_region.step [OF s00])
    show "(1, 0) \<in> set (neighbours (width ?b) (height ?b) (fst (0, 0)) (snd (0, 0)))"
      by code_simp
    show "neighbor_mines (cell_xy ?b (fst (1, 0)) (snd (1, 0))) = 0" by code_simp
  qed
  have s20: "(2, 0) \<in> zero_region ?b 0 0"
  proof (rule zero_region.step [OF s10])
    show "(2, 0) \<in> set (neighbours (width ?b) (height ?b) (fst (1, 0)) (snd (1, 0)))"
      by code_simp
    show "neighbor_mines (cell_xy ?b (fst (2, 0)) (snd (2, 0))) = 0" by code_simp
  qed
  have s01: "(0, 1) \<in> zero_region ?b 0 0"
  proof (rule zero_region.step [OF s00])
    show "(0, 1) \<in> set (neighbours (width ?b) (height ?b) (fst (0, 0)) (snd (0, 0)))"
      by code_simp
    show "neighbor_mines (cell_xy ?b (fst (0, 1)) (snd (0, 1))) = 0" by code_simp
  qed
  have s02: "(0, 2) \<in> zero_region ?b 0 0"
  proof (rule zero_region.step [OF s01])
    show "(0, 2) \<in> set (neighbours (width ?b) (height ?b) (fst (0, 1)) (snd (0, 1)))"
      by code_simp
    show "neighbor_mines (cell_xy ?b (fst (0, 2)) (snd (0, 2))) = 0" by code_simp
  qed
  from s00 s10 s20 s01 s02 have "set ?zs \<subseteq> zero_region ?b 0 0" by simp
  with sub show ?thesis by blast
qed

lemma corner_mine_board_region_border:
  "region_border corner_mine_board 0 0 = set [(1, 1), (2, 1), (1, 2)]"
  unfolding region_border_list [OF corner_mine_board_zero_region] by code_simp

lemma corner_mine_board_revealed_cells: "revealed_cells corner_mine_board = set []"
  unfolding revealed_cells_positions by code_simp

text \<open>
  C1. On a board with consistent counters on which every earlier flood fill is complete
  (\<open>flood_closed\<close>, as in every position of a game), \<open>reveal\<close> at an unrevealed cell that is
  no mine and has counter 0 returns, given a depth above the number of cells. The revealed
  cells are then those revealed before, the connected region of cells with counter 0
  around the cell, and the cells with a positive counter bordering that region; that is
  the only change to the board (\<open>evolves\<close>). The log of the writes of \<open>is_revealed\<close> lists
  the newly revealed cells, each once.
\<close>

theorem reveal_opens_zero_region:
  fixes b :: board
  assumes "board_ok b" "counts_consistent b" "flood_closed b" "in_bounds b x y"
    "\<not> is_revealed (cell_xy b x y)" "\<not> is_mine (cell_xy b x y)"
    "neighbor_mines (cell_xy b x y) = 0" "length (cells b) < n"
  shows "\<exists>b' s'. reveal n b x y = Inr b'
           \<and> reveal_or_chord n b x y = Inr ([], b')
           \<and> evolves b b'
           \<and> revealed_cells b' = revealed_cells b \<union> zero_region b x y \<union> region_border b x y
           \<and> reveal_logged n (board.extend b \<lparr>writes = []\<rparr>) x y = Inr s'
           \<and> board.truncate s' = b'
           \<and> distinct (writes s')
           \<and> set (writes s') = revealed_cells b' - revealed_cells b"
proof -
  note ok = assms(1) and cc = assms(2) and xy = assms(4)
  have "unrevealed_count b < n" using unrevealed_count_le [of b] assms(8) by simp
  from reveal_total [OF ok xy this] obtain b' where r: "reveal n b x y = Inr b'" by blast
  note e = reveal_evolves [OF r]
  have rc: "reveal_or_chord n b x y = Inr ([], b')"
    using r assms(6) by (simp add: reveal_or_chord_reveal [OF ok xy assms(5)])
  have sub: "revealed_cells b' \<subseteq> revealed_cells b \<union> zero_region b x y \<union> region_border b x y"
    using reveal_within_reach [OF ok evolves_refl xy r]
      reach_in_region [OF ok cc xy assms(6,7)] by blast
  have cl: "closed_except {} b'"
    using reveal_closed [OF ok xy _ r] assms(3) by (simp add: flood_closed_iff)
  have st: "is_revealed (cell_xy b' x y)" by (rule reveal_reveals [OF ok xy r])
  note reg = region_revealed [OF ok cc xy assms(6,7) e cl st]
  have sup1: "zero_region b x y \<subseteq> revealed_cells b'"
    using reg by (auto simp: revealed_cells_def evolves_in_bounds [OF e])
  have sup2: "region_border b x y \<subseteq> revealed_cells b'"
  proof
    fix q assume "q \<in> region_border b x y"
    then obtain p where p: "p \<in> zero_region b x y"
      "q \<in> set (neighbours (width b) (height b) (fst p) (snd p))"
      by (auto simp: region_border_def)
    from reg [OF p(1)] p(2) have "in_bounds b (fst q) (snd q)"
      "is_revealed (cell_xy b' (fst q) (snd q))"
      using neighbours_in_bounds by blast+
    then show "q \<in> revealed_cells b'"
      by (simp add: revealed_cells_def evolves_in_bounds [OF e])
  qed
  have eq: "revealed_cells b' = revealed_cells b \<union> zero_region b x y \<union> region_border b x y"
    using sub sup1 sup2 evolves_revealed_cells [OF ok e] by blast
  let ?s0 = "board.extend b \<lparr>writes = []\<rparr>"
  have t0: "board.truncate ?s0 = b" "writes ?s0 = []" by (simp_all add: board.defs)
  from reveal_logged_sim [of n ?s0 x y] r obtain s' where
    s': "reveal_logged n ?s0 x y = Inr s'" "board.truncate s' = b'" by (auto simp: t0)
  have ok0: "board_ok ?s0" "in_bounds ?s0 x y"
    using ok xy truncate_notions(2,3) [of ?s0] by (simp_all add: t0)
  from reveal_logged_writes [OF ok0 s'(1)] have "distinct (writes s')"
    "set (writes s') = revealed_cells s' - revealed_cells ?s0" by (auto simp: t0)
  moreover have "revealed_cells s' = revealed_cells b'" "revealed_cells ?s0 = revealed_cells b"
    using truncate_notions(4) [of s'] truncate_notions(4) [of ?s0] by (simp_all add: s'(2) t0)
  ultimately show ?thesis using r rc e eq s' by auto
qed

theorem reveal_opens_zero_region_witness:
  "\<exists>b' s'. reveal 10 corner_mine_board 0 0 = Inr b'
     \<and> map is_revealed (cells b') = [True, True, True, True, True, True, True, True, False]
     \<and> revealed_cells corner_mine_board = {}
     \<and> zero_region corner_mine_board 0 0 = {(0, 0), (1, 0), (2, 0), (0, 1), (0, 2)}
     \<and> region_border corner_mine_board 0 0 = {(1, 1), (2, 1), (1, 2)}
     \<and> revealed_cells b'
         = {(0, 0), (1, 0), (2, 0), (0, 1), (0, 2)} \<union> {(1, 1), (2, 1), (1, 2)}
     \<and> reveal_logged 10 (board.extend corner_mine_board \<lparr>writes = []\<rparr>) 0 0 = Inr s'
     \<and> board.truncate s' = b'
     \<and> writes s' = [(0, 0), (1, 0), (0, 1), (1, 1), (1, 2), (0, 2), (2, 0), (2, 1)]"
proof -
  have h: "board_ok corner_mine_board" "counts_consistent corner_mine_board"
    "flood_closed corner_mine_board" "in_bounds corner_mine_board 0 0"
    "\<not> is_revealed (cell_xy corner_mine_board 0 0)" "\<not> is_mine (cell_xy corner_mine_board 0 0)"
    "neighbor_mines (cell_xy corner_mine_board 0 0) = 0" "length (cells corner_mine_board) < 10"
    by code_simp+
  from reveal_opens_zero_region [OF h] obtain b' s' where
    r: "reveal 10 corner_mine_board 0 0 = Inr b'"
    and e: "revealed_cells b' = revealed_cells corner_mine_board
              \<union> zero_region corner_mine_board 0 0 \<union> region_border corner_mine_board 0 0"
    and l: "reveal_logged 10 (board.extend corner_mine_board \<lparr>writes = []\<rparr>) 0 0 = Inr s'"
    and t: "board.truncate s' = b'"
    by blast
  have c: "case reveal 10 corner_mine_board 0 0 of
             Inr b' \<Rightarrow> map is_revealed (cells b')
                        = [True, True, True, True, True, True, True, True, False]
           | Inl e \<Rightarrow> False"
    by code_simp
  have w: "case reveal_logged 10 (board.extend corner_mine_board \<lparr>writes = []\<rparr>) 0 0 of
             Inr s' \<Rightarrow> writes s' = [(0, 0), (1, 0), (0, 1), (1, 1), (1, 2), (0, 2), (2, 0), (2, 1)]
           | Inl e \<Rightarrow> False"
    by code_simp
  from c r have c': "map is_revealed (cells b')
      = [True, True, True, True, True, True, True, True, False]" by simp
  from w l have w': "writes s' = [(0, 0), (1, 0), (0, 1), (1, 1), (1, 2), (0, 2), (2, 0), (2, 1)]"
    by simp
  note z = corner_mine_board_zero_region corner_mine_board_region_border
    corner_mine_board_revealed_cells
  from e have e': "revealed_cells b'
      = {(0, 0), (1, 0), (2, 0), (0, 1), (0, 2)} \<union> {(1, 1), (2, 1), (1, 2)}"
    unfolding z by simp
  show ?thesis
    using r c' e' l t w' z by simp
qed

section \<open>The chord\<close>

lemma chord_visit_result:
  assumes "board_ok s" "in_bounds s x y"
  shows "chord_visit n s x y = (if is_mine (cell_xy s x y) then Inr s else reveal n s x y)"
  by (simp add: chord_visit_def cell_at_in_range [OF assms])

lemma chord_as_reveals:
  fixes b :: board
  assumes "board_ok b" "evolves b s" "\<forall>q \<in> set ps. in_bounds b (fst q) (snd q)"
  shows "visit_all (chord_visit n) ps s =
           visit_all (reveal n) (filter (\<lambda>q. \<not> is_mine (cell_xy b (fst q) (snd q))) ps) s"
  using assms(2,3)
proof (induction ps arbitrary: s)
  case Nil
  then show ?case by simp
next
  case (Cons p ps)
  have oks: "board_ok s" using Cons.prems(1) assms(1) by (rule evolves_board_ok)
  from Cons.prems(2) have pb: "in_bounds b (fst p) (snd p)" by simp
  then have ps: "in_bounds s (fst p) (snd p)" by (simp add: evolves_in_bounds [OF Cons.prems(1)])
  have m: "is_mine (cell_xy s (fst p) (snd p)) = is_mine (cell_xy b (fst p) (snd p))"
    by (rule evolves_kept(1) [OF assms(1) Cons.prems(1) pb])
  have rest: "\<forall>q \<in> set ps. in_bounds b (fst q) (snd q)" using Cons.prems(2) by simp
  show ?case
  proof (cases "is_mine (cell_xy b (fst p) (snd p))")
    case True
    then show ?thesis
      using Cons.IH [OF Cons.prems(1) rest] m
      by (simp add: chord_visit_result [OF oks ps])
  next
    case False
    have "and_then (reveal n s (fst p) (snd p)) (visit_all (chord_visit n) ps)
            = and_then (reveal n s (fst p) (snd p))
                (visit_all (reveal n) (filter (\<lambda>q. \<not> is_mine (cell_xy b (fst q) (snd q))) ps))"
    proof (rule and_then_cong_Inr)
      fix s1 assume "reveal n s (fst p) (snd p) = Inr s1"
      then have "evolves b s1" using Cons.prems(1) reveal_evolves by (blast intro: evolves_trans)
      then show "visit_all (chord_visit n) ps s1
                   = visit_all (reveal n) (filter (\<lambda>q. \<not> is_mine (cell_xy b (fst q) (snd q))) ps) s1"
        using rest by (rule Cons.IH)
    qed
    then show ?thesis using False m
      by (simp add: chord_visit_result [OF oks ps])
  qed
qed

lemma numbered_cell_is_safe:
  assumes "counts_consistent b" "in_bounds b x y" "0 < sint (neighbor_mines (cell_xy b x y))"
  shows "\<not> is_mine (cell_xy b x y)"
proof
  assume "is_mine (cell_xy b x y)"
  with assms(1,2) have "neighbor_mines (cell_xy b x y) = 0" by (simp add: counts_consistent_iff)
  with assms(3) show False by simp
qed

text \<open>
  C6, amended. A chord at a revealed cell whose positive counter equals the number of
  flagged neighbours, on a board with consistent counters and with a depth above the
  number of cells: \<open>reveal\<close> is called on each neighbour that is no mine, in the order of
  \<open>for_each_neighbour\<close>, whether the neighbour is flagged or not; afterwards each such
  neighbour is revealed, and unflagged if the chord revealed it. No mine changes, flagged
  or not, and nothing but cells changes: \<open>game_over\<close> stays as it was.
\<close>

theorem chord_reveals_safe_neighbours:
  fixes b :: board
  assumes "board_ok b" "counts_consistent b" "in_bounds b x y" "is_revealed (cell_xy b x y)"
    "0 < sint (neighbor_mines (cell_xy b x y))"
    "flagged_neighbours b x y = sint (neighbor_mines (cell_xy b x y))"
    "length (cells b) < n"
  shows "\<exists>b'. reveal_or_chord n b x y = Inr ([], b')
          \<and> (time b \<noteq> 1 \<longrightarrow> reveal_command n ds b x y = Inr ([], b'))
          \<and> visit_all (reveal n)
               (filter (\<lambda>q. \<not> is_mine (cell_xy b (fst q) (snd q)))
                  (neighbours (width b) (height b) x y)) b = Inr b'
          \<and> evolves b b'
          \<and> game_over b' = game_over b
          \<and> (\<forall>q \<in> set (neighbours (width b) (height b) x y).
                \<not> is_mine (cell_xy b (fst q) (snd q)) \<longrightarrow>
                  is_revealed (cell_xy b' (fst q) (snd q))
                  \<and> (\<not> is_revealed (cell_xy b (fst q) (snd q)) \<longrightarrow>
                       \<not> is_flagged (cell_xy b' (fst q) (snd q))))
          \<and> (\<forall>p \<in> set (positions b).
                is_mine (cell_xy b (fst p) (snd p)) \<longrightarrow>
                  cell_xy b' (fst p) (snd p) = cell_xy b (fst p) (snd p))"
proof -
  note ok = assms(1) and cc = assms(2) and xy = assms(3)
  let ?ns = "neighbours (width b) (height b) x y"
  let ?safe = "filter (\<lambda>q. \<not> is_mine (cell_xy b (fst q) (snd q))) ?ns"
  have nin: "\<forall>q \<in> set ?ns. in_bounds b (fst q) (snd q)"
    using neighbours_in_bounds [OF xy] by blast
  from chord_pass(3) [OF ok xy assms(7)] obtain b' where
    v: "visit_all (chord_visit n) ?ns b = Inr b'" by blast
  have rc: "reveal_or_chord n b x y = Inr ([], b')"
    using assms(6) v by (simp add: reveal_or_chord_chord [OF ok xy assms(4,5)])
  have vr: "visit_all (reveal n) ?safe b = Inr b'"
    using chord_as_reveals [OF ok evolves_refl nin, of n] v by simp
  have e: "evolves b b'" using vr by (rule visit_all_evolves) (rule reveal_evolves)
  have centre: "\<not> is_mine (cell_xy b x y)" by (rule numbered_cell_is_safe [OF cc xy assms(5)])
  have sin: "\<forall>q \<in> set ?safe. in_bounds b (fst q) (snd q)" using nin by simp
  have opened: "\<forall>q \<in> set ?safe. is_revealed (cell_xy b' (fst q) (snd q))"
    by (rule visit_all_reveal_reveals [OF ok sin vr])
  let ?I = "\<lambda>s. evolves b s
               \<and> revealed_cells s \<subseteq> revealed_cells b \<union> {p. \<not> is_mine (cell_xy b (fst p) (snd p))}"
  have "case visit_all (reveal n) ?safe b of Inr s' \<Rightarrow> ?I s' | Inl e \<Rightarrow> e \<in> UNIV"
  proof (rule visit_all_inv [where I = ?I])
    show "?I b" by (simp add: evolves_refl)
  next
    fix s :: board and q
    assume s: "?I s" and q: "q \<in> set ?safe"
    then have qn: "q \<in> set ?ns" and qm: "\<not> is_mine (cell_xy b (fst q) (snd q))" by simp_all
    from nin qn have qb: "in_bounds b (fst q) (snd q)" by simp
    have qa: "adjacent_mines b (fst q) (snd q) \<le> 7"
      using adjacent_mines_next_to_safe [OF xy qb centre] qn by simp
    show "case reveal n s (fst q) (snd q) of Inr s' \<Rightarrow> ?I s' | Inl e \<Rightarrow> e \<in> UNIV"
    proof (cases "reveal n s (fst q) (snd q)")
      case (Inl e)
      then show ?thesis by simp
    next
      case (Inr s')
      from s have es: "evolves b s" by simp
      have "revealed_cells s' \<subseteq> revealed_cells s \<union> flood_reach b (fst q) (snd q)"
        by (rule reveal_within_reach [OF ok es qb Inr])
      moreover have "flood_reach b (fst q) (snd q) \<subseteq> {p. \<not> is_mine (cell_xy b (fst p) (snd p))}"
        using safe_reach [OF ok cc qb qm qa] by blast
      moreover have "evolves b s'" using es reveal_evolves [OF Inr] by (rule evolves_trans)
      ultimately show ?thesis using s Inr by auto
    qed
  qed
  with vr have new: "revealed_cells b' \<subseteq> revealed_cells b \<union> {p. \<not> is_mine (cell_xy b (fst p) (snd p))}"
    by simp
  have mines: "\<forall>p \<in> set (positions b).
                is_mine (cell_xy b (fst p) (snd p)) \<longrightarrow>
                  cell_xy b' (fst p) (snd p) = cell_xy b (fst p) (snd p)"
  proof (intro ballI impI)
    fix p assume "p \<in> set (positions b)" and m: "is_mine (cell_xy b (fst p) (snd p))"
    then have pb: "in_bounds b (fst p) (snd p)" by (simp add: set_positions)
    show "cell_xy b' (fst p) (snd p) = cell_xy b (fst p) (snd p)"
    proof (cases "is_revealed (cell_xy b' (fst p) (snd p))")
      case False
      then show ?thesis by (rule evolves_kept(4) [OF ok e pb])
    next
      case True
      then have "p \<in> revealed_cells b'"
        using pb by (simp add: revealed_cells_def evolves_in_bounds [OF e])
      with new m have "p \<in> revealed_cells b" by auto
      then have "is_revealed (cell_xy b (fst p) (snd p))" by (simp add: revealed_cells_def)
      then show ?thesis by (rule evolves_kept(3) [OF ok e pb])
    qed
  qed
  have nbrs: "\<forall>q \<in> set ?ns. \<not> is_mine (cell_xy b (fst q) (snd q)) \<longrightarrow>
                  is_revealed (cell_xy b' (fst q) (snd q))
                  \<and> (\<not> is_revealed (cell_xy b (fst q) (snd q)) \<longrightarrow>
                       \<not> is_flagged (cell_xy b' (fst q) (snd q)))"
  proof (intro ballI impI)
    fix q assume q: "q \<in> set ?ns" and qm: "\<not> is_mine (cell_xy b (fst q) (snd q))"
    then have r: "is_revealed (cell_xy b' (fst q) (snd q))" using opened by simp
    from nin q have qb: "in_bounds b (fst q) (snd q)" by simp
    from r evolves_kept(5) [OF ok e qb]
    show "is_revealed (cell_xy b' (fst q) (snd q))
          \<and> (\<not> is_revealed (cell_xy b (fst q) (snd q)) \<longrightarrow>
                       \<not> is_flagged (cell_xy b' (fst q) (snd q)))" by simp
  qed
  have "time b \<noteq> 1 \<longrightarrow> reveal_command n ds b x y = Inr ([], b')"
    using rc by (simp add: reveal_command_def)
  with rc vr e evolves_fields(4) [OF e] nbrs mines show ?thesis by blast
qed

theorem chord_reveals_safe_neighbours_witness:
  "\<exists>b'. reveal_command 5 [] row_with_wrong_flag 1 0 = Inr ([], b')
     \<and> game_over b' = game_over row_with_wrong_flag
     \<and> is_revealed (cell_xy b' 0 0) \<and> \<not> is_flagged (cell_xy b' 0 0)
     \<and> cell_xy b' 2 0 = cell_xy row_with_wrong_flag 2 0"
proof -
  have h: "board_ok row_with_wrong_flag" "counts_consistent row_with_wrong_flag"
    "in_bounds row_with_wrong_flag 1 0" "is_revealed (cell_xy row_with_wrong_flag 1 0)"
    "0 < sint (neighbor_mines (cell_xy row_with_wrong_flag 1 0))"
    "flagged_neighbours row_with_wrong_flag 1 0
       = sint (neighbor_mines (cell_xy row_with_wrong_flag 1 0))"
    "length (cells row_with_wrong_flag) < 5"
    by code_simp+
  have g: "time row_with_wrong_flag \<noteq> 1"
    "(0, 0) \<in> set (neighbours (width row_with_wrong_flag) (height row_with_wrong_flag) 1 0)"
    "\<not> is_mine (cell_xy row_with_wrong_flag 0 0)"
    "\<not> is_revealed (cell_xy row_with_wrong_flag 0 0)"
    "(2, 0) \<in> set (positions row_with_wrong_flag)"
    "is_mine (cell_xy row_with_wrong_flag 2 0)"
    by code_simp+
  from chord_reveals_safe_neighbours [OF h, of "[]"] obtain b' where
    b': "time row_with_wrong_flag \<noteq> 1 \<longrightarrow> reveal_command 5 [] row_with_wrong_flag 1 0 = Inr ([], b')"
      "game_over b' = game_over row_with_wrong_flag"
      "\<forall>q \<in> set (neighbours (width row_with_wrong_flag) (height row_with_wrong_flag) 1 0).
          \<not> is_mine (cell_xy row_with_wrong_flag (fst q) (snd q)) \<longrightarrow>
            is_revealed (cell_xy b' (fst q) (snd q))
            \<and> (\<not> is_revealed (cell_xy row_with_wrong_flag (fst q) (snd q)) \<longrightarrow>
                 \<not> is_flagged (cell_xy b' (fst q) (snd q)))"
      "\<forall>p \<in> set (positions row_with_wrong_flag).
          is_mine (cell_xy row_with_wrong_flag (fst p) (snd p)) \<longrightarrow>
            cell_xy b' (fst p) (snd p) = cell_xy row_with_wrong_flag (fst p) (snd p)"
    by blast
  from b'(3) g(2,3,4) have "is_revealed (cell_xy b' 0 0) \<and> \<not> is_flagged (cell_xy b' 0 0)"
    by fastforce
  moreover from b'(4) g(5,6) have "cell_xy b' 2 0 = cell_xy row_with_wrong_flag 2 0"
    by fastforce
  ultimately show ?thesis using b'(1,2) g(1) by blast
qed

section \<open>The positions of a game\<close>

lemma adjacent_mines_cong:
  assumes "width b' = width b" "height b' = height b" "in_bounds b x y"
    and "\<And>u v. in_bounds b u v \<Longrightarrow> is_mine (cell_xy b' u v) = is_mine (cell_xy b u v)"
  shows "adjacent_mines b' x y = adjacent_mines b x y"
proof -
  have "filter (\<lambda>p. is_mine (cell_xy b' (fst p) (snd p))) (neighbours (width b) (height b) x y)
          = filter (\<lambda>p. is_mine (cell_xy b (fst p) (snd p))) (neighbours (width b) (height b) x y)"
    by (rule filter_cong [OF refl]) (simp add: assms(4) neighbours_in_bounds [OF assms(3)])
  then show ?thesis by (simp add: adjacent_mines_def assms(1,2))
qed

lemma counts_consistent_cong:
  assumes "width b' = width b" "height b' = height b"
    and "\<And>u v. in_bounds b u v \<Longrightarrow> is_mine (cell_xy b' u v) = is_mine (cell_xy b u v)"
    and "\<And>u v. in_bounds b u v \<Longrightarrow>
           neighbor_mines (cell_xy b' u v) = neighbor_mines (cell_xy b u v)"
  shows "counts_consistent b' = counts_consistent b"
proof -
  have i: "\<And>u v. in_bounds b' u v = in_bounds b u v" by (simp add: in_bounds_def assms(1,2))
  have a: "\<And>u v. in_bounds b u v \<Longrightarrow> adjacent_mines b' u v = adjacent_mines b u v"
    by (rule adjacent_mines_cong [OF assms(1,2)]) (simp_all add: assms(3))
  show ?thesis unfolding counts_consistent_iff i
    using assms(3,4) a by (auto simp del: of_int_eq_iff)
qed

lemma closed_except_cong:
  assumes "width b' = width b" "height b' = height b"
    and "\<And>u v. in_bounds b u v \<Longrightarrow> is_mine (cell_xy b' u v) = is_mine (cell_xy b u v)"
    and "\<And>u v. in_bounds b u v \<Longrightarrow>
           neighbor_mines (cell_xy b' u v) = neighbor_mines (cell_xy b u v)"
    and "\<And>u v. in_bounds b u v \<Longrightarrow>
           is_revealed (cell_xy b' u v) = is_revealed (cell_xy b u v)"
  shows "closed_except P b' = closed_except P b"
proof -
  have i: "\<And>u v. in_bounds b' u v = in_bounds b u v" by (simp add: in_bounds_def assms(1,2))
  have s: "\<And>u v. in_bounds b u v \<Longrightarrow> spreads b' (u, v) = spreads b (u, v)"
    by (simp add: spreads_def assms(3,4))
  have n: "\<And>u v q. in_bounds b u v \<Longrightarrow> q \<in> set (neighbours (width b) (height b) u v) \<Longrightarrow>
             is_revealed (cell_xy b' (fst q) (snd q)) = is_revealed (cell_xy b (fst q) (snd q))"
    using assms(5) neighbours_in_bounds by blast
  have eq: "\<And>u v. (in_bounds b u v \<and> (u, v) \<notin> P \<and> is_revealed (cell_xy b' u v)
                  \<and> spreads b' (u, v)
                \<longrightarrow> (\<forall>q \<in> set (neighbours (width b) (height b) u v).
                       is_revealed (cell_xy b' (fst q) (snd q))))
             = (in_bounds b u v \<and> (u, v) \<notin> P \<and> is_revealed (cell_xy b u v)
                  \<and> spreads b (u, v)
                \<longrightarrow> (\<forall>q \<in> set (neighbours (width b) (height b) u v).
                       is_revealed (cell_xy b (fst q) (snd q))))"
  proof -
    fix u v
    show "?thesis u v"
    proof (cases "in_bounds b u v")
      case False
      then show ?thesis by simp
    next
      case True
      have "(\<forall>q \<in> set (neighbours (width b) (height b) u v).
                       is_revealed (cell_xy b' (fst q) (snd q)))
            = (\<forall>q \<in> set (neighbours (width b) (height b) u v).
                       is_revealed (cell_xy b (fst q) (snd q)))"
        by (rule ball_cong [OF refl]) (rule n [OF True])
      then show ?thesis using s [OF True] assms(5) [OF True] by simp
    qed
  qed
  show ?thesis unfolding closed_except_iff i assms(1,2) by (simp only: eq)
qed

lemma evolves_counts_consistent:
  assumes "board_ok b" "evolves b b'"
  shows "counts_consistent b' = counts_consistent b"
  by (rule counts_consistent_cong)
     (simp_all add: evolves_fields [OF assms(2)] evolves_kept(1,2) [OF assms])

lemma no_revealed_flag_iff:
  "no_revealed_flag b \<longleftrightarrow>
     (\<forall>u v. in_bounds b u v \<longrightarrow> \<not> (is_revealed (cell_xy b u v) \<and> is_flagged (cell_xy b u v)))"
  by (auto simp: no_revealed_flag_def set_positions)

lemma evolves_no_revealed_flag:
  assumes "board_ok b" "evolves b b'" "no_revealed_flag b"
  shows "no_revealed_flag b'"
  unfolding no_revealed_flag_iff
proof (intro allI impI)
  fix u v assume "in_bounds b' u v"
  then have uv: "in_bounds b u v" by (simp add: evolves_in_bounds [OF assms(2)])
  from evolves_cell_xy [OF assms(1,2) uv] assms(3) uv
  show "\<not> (is_revealed (cell_xy b' u v) \<and> is_flagged (cell_xy b' u v))"
    unfolding no_revealed_flag_iff by (auto simp: reveal_or_keep_def)
qed

lemma cell_xy_in_cells:
  assumes "board_ok b" "in_bounds b u v"
  shows "cell_xy b u v \<in> set (cells b)"
  using index_in_range [OF assms] by (simp add: cell_xy_def cell_ref_def)

lemma blank_board:
  assumes "board_ok b" "\<forall>c \<in> set (cells b). c = blank_cell"
  shows "counts_consistent b" "flood_closed b" "no_revealed_flag b" "mine_count b = 0"
proof -
  have c: "\<And>u v. in_bounds b u v \<Longrightarrow> cell_xy b u v = blank_cell"
    using cell_xy_in_cells [OF assms(1)] assms(2) by blast
  have "\<And>u v. in_bounds b u v \<Longrightarrow> adjacent_mines b u v = 0"
  proof -
    fix u v assume uv: "in_bounds b u v"
    have "filter (\<lambda>p. is_mine (cell_xy b (fst p) (snd p))) (neighbours (width b) (height b) u v) = []"
      unfolding filter_empty_conv
      using neighbours_in_bounds [OF uv] c by (simp add: blank_cell_def)
    then show "adjacent_mines b u v = 0" by (simp add: adjacent_mines_def)
  qed
  then show "counts_consistent b"
    unfolding counts_consistent_iff using c by (simp add: blank_cell_def)
  show "flood_closed b"
    unfolding flood_closed_iff closed_except_iff
  proof (intro allI impI)
    fix u v
    assume "in_bounds b u v \<and> (u, v) \<notin> {} \<and> is_revealed (cell_xy b u v) \<and> spreads b (u, v)"
    then have "is_revealed blank_cell" using c [of u v] by simp
    then show "\<forall>q \<in> set (neighbours (width b) (height b) u v).
                 is_revealed (cell_xy b (fst q) (snd q))"
      by (simp add: blank_cell_def)
  qed
  show "no_revealed_flag b"
    unfolding no_revealed_flag_iff using c by (simp add: blank_cell_def)
  have "filter is_mine (cells b) = []"
    unfolding filter_empty_conv using assms(2) by (auto simp: blank_cell_def)
  then show "mine_count b = 0" by (simp add: mine_count_def)
qed

text \<open>The notions above do not look at \<open>game_over\<close> or \<open>time\<close>.\<close>

lemma game_over_update_notions [simp]:
  "cell_xy (s\<lparr>game_over := g\<rparr>) u v = cell_xy s u v"
  "in_bounds (s\<lparr>game_over := g\<rparr>) u v = in_bounds s u v"
  "board_ok (s\<lparr>game_over := g\<rparr>) = board_ok s"
  "positions (s\<lparr>game_over := g\<rparr>) = positions s"
  "adjacent_mines (s\<lparr>game_over := g\<rparr>) u v = adjacent_mines s u v"
  by (simp_all add: cell_xy_def cell_ref_def in_bounds_def board_ok_def positions_def
        adjacent_mines_def)

lemma game_over_update_invariants [simp]:
  "counts_consistent (s\<lparr>game_over := g\<rparr>) = counts_consistent s"
  "flood_closed (s\<lparr>game_over := g\<rparr>) = flood_closed s"
  "no_revealed_flag (s\<lparr>game_over := g\<rparr>) = no_revealed_flag s"
  by (simp_all add: counts_consistent_def flood_closed_def no_revealed_flag_def)

lemma time_update_notions [simp]:
  "cell_xy (s\<lparr>time := t\<rparr>) u v = cell_xy s u v"
  "in_bounds (s\<lparr>time := t\<rparr>) u v = in_bounds s u v"
  "board_ok (s\<lparr>time := t\<rparr>) = board_ok s"
  "positions (s\<lparr>time := t\<rparr>) = positions s"
  "adjacent_mines (s\<lparr>time := t\<rparr>) u v = adjacent_mines s u v"
  by (simp_all add: cell_xy_def cell_ref_def in_bounds_def board_ok_def positions_def
        adjacent_mines_def)

lemma time_update_invariants [simp]:
  "counts_consistent (s\<lparr>time := t\<rparr>) = counts_consistent s"
  "flood_closed (s\<lparr>time := t\<rparr>) = flood_closed s"
  "no_revealed_flag (s\<lparr>time := t\<rparr>) = no_revealed_flag s"
  by (simp_all add: counts_consistent_def flood_closed_def no_revealed_flag_def)

lemma chord_closed:
  fixes b :: board
  assumes "board_ok b" "in_bounds b x y" "flood_closed b"
    "visit_all (chord_visit n) (neighbours (width b) (height b) x y) b = Inr b'"
  shows "flood_closed b'"
proof -
  let ?I = "\<lambda>s. evolves b s \<and> closed_except {} s"
  have "case visit_all (chord_visit n) (neighbours (width b) (height b) x y) b of
          Inr s' \<Rightarrow> ?I s' | Inl e \<Rightarrow> e \<in> UNIV"
  proof (rule visit_all_inv [where I = ?I])
    show "?I b" using assms(3) by (simp add: evolves_refl flood_closed_iff)
  next
    fix s :: board and q
    assume s: "?I s" and q: "q \<in> set (neighbours (width b) (height b) x y)"
    then have es: "evolves b s" by simp
    have oks: "board_ok s" using es assms(1) by (rule evolves_board_ok)
    have qs: "in_bounds s (fst q) (snd q)"
      using neighbours_in_bounds [OF assms(2) q] by (simp add: evolves_in_bounds [OF es])
    show "case chord_visit n s (fst q) (snd q) of Inr s' \<Rightarrow> ?I s' | Inl e \<Rightarrow> e \<in> UNIV"
    proof (cases "chord_visit n s (fst q) (snd q)")
      case (Inl e)
      then show ?thesis by simp
    next
      case (Inr s')
      have "evolves b s'" using es chord_visit_evolves [OF Inr] by (rule evolves_trans)
      moreover have "closed_except {} s'"
      proof (cases "is_mine (cell_xy s (fst q) (snd q))")
        case True
        with Inr s show ?thesis by (simp add: chord_visit_result [OF oks qs])
      next
        case False
        with Inr have "reveal n s (fst q) (snd q) = Inr s'"
          by (simp add: chord_visit_result [OF oks qs])
        from reveal_closed [OF oks qs _ this] s show ?thesis by simp
      qed
      ultimately show ?thesis using Inr by simp
    qed
  qed
  with assms(4) show ?thesis by (simp add: flood_closed_iff)
qed

lemma reveal_or_chord_game:
  assumes "board_ok b" "in_bounds b x y" "counts_consistent b" "flood_closed b"
    "no_revealed_flag b" "reveal_or_chord n b x y = Inr (out, b')"
  shows "board_ok b'" "counts_consistent b'" "flood_closed b'" "no_revealed_flag b'"
    "time b' = time b" "width b' = width b" "height b' = height b"
proof -
  let ?b'' = "b'\<lparr>game_over := game_over b\<rparr>"
  from reveal_or_chord_safe [OF assms(1,2), of n] assms(6) have e: "evolves b ?b''" by simp
  from evolves_board_ok [OF e assms(1)] show "board_ok b'" by simp
  from evolves_counts_consistent [OF assms(1) e] assms(3) show "counts_consistent b'" by simp
  from evolves_no_revealed_flag [OF assms(1) e assms(5)] show "no_revealed_flag b'" by simp
  from evolves_fields(1,2,5) [OF e]
  show "time b' = time b" "width b' = width b" "height b' = height b" by simp_all
  show "flood_closed b'"
  proof (cases "is_revealed (cell_xy b x y)")
    case False
    from assms(6) obtain b1 where r: "reveal n b x y = Inr b1"
      and b': "b' = (if is_mine (cell_xy b x y) then b1\<lparr>game_over := True\<rparr> else b1)"
      unfolding reveal_or_chord_reveal [OF assms(1,2) False] by (auto simp: and_then_eq_Inr)
    from reveal_closed [OF assms(1,2) _ r] assms(4) have "flood_closed b1"
      by (simp add: flood_closed_iff)
    then show ?thesis by (simp add: b')
  next
    case True
    show ?thesis
    proof (cases "0 < sint (neighbor_mines (cell_xy b x y))")
      case False
      with True assms(6) assms(4) show ?thesis
        by (simp add: reveal_or_chord_noop [OF assms(1,2)])
    next
      case pos: True
      show ?thesis
      proof (cases "flagged_neighbours b x y \<noteq> sint (neighbor_mines (cell_xy b x y))")
        case True
        with assms(6) assms(4) show ?thesis
          by (simp add: reveal_or_chord_chord [OF assms(1,2) \<open>is_revealed (cell_xy b x y)\<close> pos])
      next
        case False
        with assms(6) have "visit_all (chord_visit n) (neighbours (width b) (height b) x y) b = Inr b'"
          by (auto simp: reveal_or_chord_chord [OF assms(1,2) \<open>is_revealed (cell_xy b x y)\<close> pos]
                and_then_eq_Inr)
        then show ?thesis by (rule chord_closed [OF assms(1,2,4)])
      qed
    qed
  qed
qed

lemma flag_command_game:
  assumes "board_ok b" "in_bounds b x y" "counts_consistent b" "flood_closed b"
    "no_revealed_flag b" "flag_command b x y = Inr b'"
  shows "board_ok b'" "counts_consistent b'" "flood_closed b'" "no_revealed_flag b'"
    "time b' = time b"
proof -
  let ?c = "cell_xy b x y"
  let ?b1 = "set_cell b (y * width b + x) (?c\<lparr>is_flagged := \<not> is_flagged ?c\<rparr>)"
  have b': "b' = (if is_revealed ?c then b else ?b1)"
    using assms(6) by (simp add: flag_command_result [OF assms(1,2)])
  have sb: "same_but_cells b ?b1" by (rule same_but_cells_set_cell)
  note f = same_but_cells_fields [OF sb]
  note c = cell_xy_set_cell [OF assms(1,2)]
  have ok1: "board_ok ?b1" using sb assms(1) by (rule same_but_cells_board_ok)
  have cc1: "counts_consistent ?b1 = counts_consistent b"
    by (rule counts_consistent_cong) (auto simp: f c)
  have fc1: "closed_except {} ?b1 = closed_except {} b"
    by (rule closed_except_cong) (auto simp: f c)
  have nf1: "\<not> is_revealed ?c \<Longrightarrow> no_revealed_flag ?b1"
    using assms(5) unfolding no_revealed_flag_iff
    by (auto simp: c same_but_cells_in_bounds [OF sb])
  show "board_ok b'" using assms(1) ok1 by (simp add: b')
  show "counts_consistent b'" using assms(3) cc1 by (simp add: b')
  show "flood_closed b'" using assms(4) fc1 by (simp add: b' flood_closed_iff)
  show "no_revealed_flag b'" using assms(5) nf1 by (simp add: b')
  show "time b' = time b" using f(5) by (simp add: b')
qed

lemma init_board_game:
  assumes "board_ok b" "\<forall>c \<in> set (cells b). c = blank_cell" "in_bounds b x y"
    "\<forall>d \<in> set ds. 0 \<le> d \<and> d < width b * height b" "init_board ds b x y = Inr b'"
  shows "board_ok b'" "counts_consistent b'" "flood_closed b'" "no_revealed_flag b'"
    "time b' = time b" "width b' = width b" "height b' = height b"
proof -
  note bl = blank_board [OF assms(1,2)]
  from init_board_result [OF assms(1) bl(4) assms(3,4)] assms(5) bl(1)
  have sb: "same_but_cells b b'" and cc: "counts_consistent b'"
    and rf: "\<And>u v. in_bounds b u v \<Longrightarrow>
               is_revealed (cell_xy b' u v) = is_revealed (cell_xy b u v)
               \<and> is_flagged (cell_xy b' u v) = is_flagged (cell_xy b u v)"
    by simp_all
  have c: "\<And>u v. in_bounds b u v \<Longrightarrow> cell_xy b u v = blank_cell"
    using cell_xy_in_cells [OF assms(1)] assms(2) by blast
  have nr: "\<And>u v. in_bounds b' u v \<Longrightarrow> \<not> is_revealed (cell_xy b' u v)"
    using rf c by (simp add: same_but_cells_in_bounds [OF sb] blank_cell_def)
  show "board_ok b'" using sb assms(1) by (rule same_but_cells_board_ok)
  show "counts_consistent b'" by (rule cc)
  show "flood_closed b'" unfolding flood_closed_iff closed_except_iff using nr by blast
  show "no_revealed_flag b'" unfolding no_revealed_flag_iff using nr by blast
  show "time b' = time b" "width b' = width b" "height b' = height b"
    using same_but_cells_fields [OF sb] by simp_all
qed

lemma new_command_game:
  assumes "board_ok b" "new_command fresh_seed b x y = Inr b'"
  shows "game_state b'"
proof -
  let ?b0 = "if x > 0 \<and> y > 0 then b\<lparr>width := x, height := y\<rparr> else b"
  have pos: "0 < width ?b0" "0 < height ?b0" using assms(1) by (auto simp: board_ok_def)
  then have nn: "\<not> width ?b0 * height ?b0 < 0" by (simp add: zero_less_mult_iff not_less less_imp_le)
  from assms(2) nn have b': "b' = ?b0\<lparr>cells := replicate (nat (width ?b0 * height ?b0)) blank_cell,
                                   seed := fresh_seed, game_over := False, time := 0\<rparr>"
    unfolding new_command_def resize_cells_def by (simp only: if_False and_then_Inr) simp
  have f: "width b' = width ?b0" "height b' = height ?b0"
    "cells b' = replicate (nat (width ?b0 * height ?b0)) blank_cell" "time b' = 0"
    unfolding b' by simp_all
  have ok: "board_ok b'" using pos nn by (simp add: board_ok_def f)
  have bl: "\<forall>c \<in> set (cells b'). c = blank_cell" by (simp add: f)
  from blank_board [OF ok bl] ok bl show ?thesis by (simp add: game_state_def)
qed

section \<open>The states a game goes through\<close>

lemma check_board_continue:
  assumes "check_board b = (out, b')" "\<not> game_over b'"
  shows "b' = b"
  using assms by (auto simp: check_board_def split: prod.splits if_splits)

lemma main_iteration_keeps_game_state:
  assumes g: "game_state b" and i: "input_ok b input"
    and m: "main_iteration n b input = Inr (out, Continue b')"
  shows "game_state b'"
proof -
  obtain verb x y ds fs where input: "input = (Command verb x y, ds, fs)"
    by (cases input, cases "fst input") auto
  let ?b1 = "b\<lparr>time := time b + 1\<rparr>"
  obtain out1 b2 where cb: "check_board ?b1 = (out1, b2)" by (cases "check_board ?b1")
  have mi: "main_iteration n b input =
      (if game_over b2 then Inr (out1 @ [''Game over!''], Exit b2)
       else case verb of
              New \<Rightarrow> and_then (new_command fs b2 x y) (\<lambda>board. Inr (out1, Continue board))
            | Reveal \<Rightarrow> and_then (reveal_command n ds b2 x y) (\<lambda>(out', board).
                         Inr (out1 @ out', Continue board))
            | Flag \<Rightarrow> and_then (flag_command b2 x y) (\<lambda>board. Inr (out1, Continue board))
            | Quit \<Rightarrow> Inr (out1, Exit b2))"
    unfolding main_iteration_def input Let_def prod.case cb Command.case by (rule refl)
  have ng: "\<not> game_over b2" using m unfolding mi by (auto split: if_splits)
  note m' = m [unfolded mi]
  have b2: "b2 = ?b1" using cb ng by (rule check_board_continue)
  from g have ok: "board_ok ?b1" and cc: "counts_consistent ?b1" and fc: "flood_closed ?b1"
    and nf: "no_revealed_flag ?b1"
    by (simp_all add: game_state_def)
  show ?thesis
  proof (cases verb)
    case New
    with m' ng obtain b3 where "new_command fs b2 x y = Inr b3" "b' = b3"
      by (auto simp: and_then_eq_Inr)
    with new_command_game [OF ok] show ?thesis unfolding b2 by simp
  next
    case Quit
    with m' ng show ?thesis by simp
  next
    case Flag
    with i have ib: "in_bounds ?b1 x y" by (simp add: input_ok_def input)
    from Flag m' ng have "flag_command b2 x y = Inr b'"
      by (auto simp: and_then_eq_Inr)
    then have "flag_command ?b1 x y = Inr b'" unfolding b2 .
    from flag_command_game [OF ok ib cc fc nf this] show ?thesis
      by (simp add: game_state_def)
  next
    case Reveal
    with i have ib: "in_bounds ?b1 x y"
      and ds: "\<forall>d \<in> set ds. 0 \<le> d \<and> d < width ?b1 * height ?b1"
      by (simp_all add: input_ok_def input)
    from Reveal m' ng obtain out' where "reveal_command n ds b2 x y = Inr (out', b')"
      by (auto simp: and_then_eq_Inr split: prod.splits)
    then have rc: "reveal_command n ds ?b1 x y = Inr (out', b')" unfolding b2 .
    then obtain b3 where
      i3: "(if time ?b1 = 1 then init_board ds ?b1 x y else Inr ?b1) = Inr b3"
      and r3: "reveal_or_chord n b3 x y = Inr (out', b')"
      unfolding reveal_command_def by (auto simp: and_then_eq_Inr)
    have s3: "board_ok b3 \<and> counts_consistent b3 \<and> flood_closed b3 \<and> no_revealed_flag b3
        \<and> time b3 = time ?b1 \<and> width b3 = width ?b1 \<and> height b3 = height ?b1"
    proof (cases "time ?b1 = 1")
      case False
      with i3 ok cc fc nf show ?thesis by auto
    next
      case True
      then have "time b = 0" by simp
      with g have bl: "\<forall>c \<in> set (cells ?b1). c = blank_cell" by (simp add: game_state_def)
      from True i3 have "init_board ds ?b1 x y = Inr b3" by simp
      from init_board_game [OF ok bl ib ds this] show ?thesis by simp
    qed
    then have ib3: "in_bounds b3 x y" using ib by (simp add: in_bounds_def)
    from s3 reveal_or_chord_game [OF _ ib3 _ _ _ r3] show ?thesis
      by (simp add: game_state_def)
  qed
qed

lemma main_loop_keeps_game_state:
  "game_state b \<Longrightarrow> playable n b inputs \<Longrightarrow> main_loop n b inputs = Inr (Continue b')
     \<Longrightarrow> game_state b'"
proof (induction inputs arbitrary: b)
  case Nil
  then show ?case by simp
next
  case (Cons input inputs)
  from Cons.prems(3) obtain out b1 where
    m: "main_iteration n b input = Inr (out, Continue b1)"
    and l: "main_loop n b1 inputs = Inr (Continue b')"
    by (auto split: sum.splits prod.splits outcome.splits)
  from Cons.prems(2) m have i: "input_ok b input" and p: "playable n b1 inputs" by simp_all
  from Cons.prems(1) i m have "game_state b1" by (rule main_iteration_keeps_game_state)
  from Cons.IH [OF this p l] show ?case .
qed

text \<open>The board \<open>main\<close> starts with is such a state, so every board of a game played
  with coordinates on the grid is one.\<close>

lemma start_board_game_state:
  assumes "0 < w" "0 < h" "start_board w h m s sys = Inr b"
  shows "game_state b"
proof -
  from assms(1,2) have nn: "\<not> w * h < 0" by (simp add: zero_less_mult_iff not_less less_imp_le)
  from assms(3) nn have b: "b = \<lparr>width = w, height = h, num_mines = m,
      cells = replicate (nat (w * h)) blank_cell, seed = s, game_over = False, time = 0,
      system = sys\<rparr>"
    by (simp add: start_board_def resize_cells_def)
  have ok: "board_ok b" using assms(1,2) nn by (simp add: board_ok_def b)
  have bl: "\<forall>c \<in> set (cells b). c = blank_cell" by (simp add: b)
  from blank_board [OF ok bl] ok bl show ?thesis by (simp add: game_state_def)
qed

lemma game_from_start_keeps_game_state:
  assumes "0 < w" "0 < h" "start_board w h m s sys = Inr b" "playable n b inputs"
    "main_loop n b inputs = Inr (Continue b')"
  shows "board_ok b'" "counts_consistent b'" "flood_closed b'" "no_revealed_flag b'"
proof -
  from assms(1-3) have "game_state b" by (rule start_board_game_state)
  from main_loop_keeps_game_state [OF this assms(4,5)]
  show "board_ok b'" "counts_consistent b'" "flood_closed b'" "no_revealed_flag b'"
    by (simp_all add: game_state_def)
qed

lemma game_from_start_example:
  "start_board 2 2 1 0 Boris = Inr (fresh_board 2 2 1)
   \<and> playable 5 (fresh_board 2 2 1) [(Command Reveal 0 0, [3], 0), (Command Flag 1 1, [], 0)]"
  by code_simp

end
